theory Spec2Isabelle
  imports Main "HOL-Library.Word" "HOL-Library.List_Lexorder" "HOL-Library.Multiset"
begin

text \<open>
  A model of \<open>FA2_pack.py\<close>, the packer of FA2 archives: a 16-byte header, the contents
  of the files of a directory, each padded to a multiple of 16 bytes, and an index of
  32-byte records. The definitions follow the source line by line; the theorems at the
  end settle what the specification says about the archive.
\<close>

unbundle bit_operations_syntax

section \<open>Data\<close>

text \<open>
  A byte string (Python \<open>bytes\<close>, \<open>bytearray\<close>) is a list of 8-bit words. A Python
  \<open>str\<close> is a list of code points; \<open>files.sort()\<close> compares such lists
  lexicographically by code point, which is the order of \<open>HOL-Library.List_Lexorder\<close>.
  Python integers are unbounded: sizes and offsets are \<open>int\<close>.
\<close>

type_synonym byte = "8 word"
type_synonym bytes = "byte list"
type_synonym pystr = "nat list"

text \<open>
  The exceptions the packer can raise: \<open>OSError\<close> from \<open>os.listdir\<close>, \<open>open\<close>,
  \<open>read\<close>, \<open>write\<close> and \<open>print\<close>; \<open>UnicodeEncodeError\<close> from \<open>str.encode\<close>
  and from \<open>print\<close>; \<open>struct.error\<close> from \<open>struct.pack\<close>; \<open>ValueError\<close> from
  \<open>print\<close> on a closed standard output.
\<close>

datatype error = OSError | UnicodeEncodeError | StructError | ValueError

text \<open>One element of \<open>file_entries\<close>: \<open>(fname, orig_size, stored_size, data_offset)\<close>.\<close>

type_synonym file_entry = "pystr \<times> int \<times> int \<times> int"

section \<open>Library functions the packer calls\<close>

text \<open>
  \<open>str.encode("utf-8")\<close>, one code point at a time. Surrogates (which
  \<open>os.listdir\<close> produces for undecodable file names) raise
  \<open>UnicodeEncodeError\<close>. A Python \<open>str\<close> holds no number from \<open>0x110000\<close> on;
  such a number is rejected here as well.
\<close>

definition utf8_char :: "nat \<Rightarrow> error + bytes" where
  "utf8_char c =
     (if c < 0x80 then Inr [of_nat c]
      else if c < 0x800 then Inr [of_nat (0xC0 + c div 64), of_nat (0x80 + c mod 64)]
      else if 0xD800 \<le> c \<and> c < 0xE000 then Inl UnicodeEncodeError
      else if c < 0x10000 then
        Inr [of_nat (0xE0 + c div 4096), of_nat (0x80 + c div 64 mod 64),
             of_nat (0x80 + c mod 64)]
      else if c < 0x110000 then
        Inr [of_nat (0xF0 + c div 262144), of_nat (0x80 + c div 4096 mod 64),
             of_nat (0x80 + c div 64 mod 64), of_nat (0x80 + c mod 64)]
      else Inl UnicodeEncodeError)"

fun utf8_encode :: "pystr \<Rightarrow> error + bytes" where
  "utf8_encode [] = Inr []"
| "utf8_encode (c # cs) =
     (case utf8_char c of
        Inl e \<Rightarrow> Inl e
      | Inr b \<Rightarrow> (case utf8_encode cs of Inl e \<Rightarrow> Inl e | Inr bs \<Rightarrow> Inr (b @ bs)))"

text \<open>
  \<open>struct.pack("<I", n)\<close>: four bytes, least significant first; \<open>struct.error\<close>
  when \<open>n\<close> is negative or does not fit 32 bits.
\<close>

definition struct_pack_I :: "int \<Rightarrow> error + bytes" where
  "struct_pack_I n =
     (if 0 \<le> n \<and> n < 2 ^ 32
      then Inr [of_int n, of_int (n div 256), of_int (n div 65536), of_int (n div 16777216)]
      else Inl StructError)"

text \<open>\<open>bytes.ljust(width, fill)\<close>: pad on the right up to \<open>width\<close>; longer input is unchanged.\<close>

definition ljust :: "nat \<Rightarrow> byte \<Rightarrow> bytes \<Rightarrow> bytes" where
  "ljust width fill bs = bs @ replicate (width - length bs) fill"

section \<open>The packer\<close>

definition align16 :: "int \<Rightarrow> int" where
  "align16 n = (n + 0xF) AND NOT 0xF"

text \<open>
  The body of the first loop of \<open>pack_fa2\<close> once the file has been read: the state is
  \<open>(file_entries, file_data, data_offset)\<close>.
\<close>

definition add_file ::
  "pystr \<Rightarrow> bytes \<Rightarrow> file_entry list \<times> bytes \<times> int \<Rightarrow> file_entry list \<times> bytes \<times> int" where
  "add_file fname data st =
     (case st of (file_entries, file_data, data_offset) \<Rightarrow>
       (let orig_size = int (length data);
            stored_size = orig_size;
            file_entries = file_entries @ [(fname, orig_size, stored_size, data_offset)];
            file_data = file_data @ data;
            pad_len = align16 orig_size - orig_size;
            file_data = (if pad_len \<noteq> 0 then file_data @ replicate (nat pad_len) 0
                         else file_data);
            data_offset = data_offset + align16 orig_size
        in (file_entries, file_data, data_offset)))"

text \<open>The first loop over entries whose content is already at hand.\<close>

fun data_loop ::
  "(pystr \<times> bytes) list \<Rightarrow> file_entry list \<times> bytes \<times> int \<Rightarrow> file_entry list \<times> bytes \<times> int" where
  "data_loop [] st = st"
| "data_loop ((fname, data) # rest) st = data_loop rest (add_file fname data st)"

text \<open>The 16-byte header: signature, flags, index offset, file count.\<close>

definition build_header :: "int \<Rightarrow> int \<Rightarrow> error + bytes" where
  "build_header index_offset file_count =
     (case struct_pack_I 0x00324146 of Inl e \<Rightarrow> Inl e | Inr sig \<Rightarrow>
     (case struct_pack_I 0 of Inl e \<Rightarrow> Inl e | Inr flags \<Rightarrow>
     (case struct_pack_I index_offset of Inl e \<Rightarrow> Inl e | Inr off \<Rightarrow>
     (case struct_pack_I file_count of Inl e \<Rightarrow> Inl e | Inr cnt \<Rightarrow>
        Inr (sig @ flags @ off @ cnt)))))"

text \<open>The 15-byte name field of an index record.\<close>

definition name_field :: "pystr \<Rightarrow> error + bytes" where
  "name_field fname =
     (case utf8_encode fname of
        Inl e \<Rightarrow> Inl e
      | Inr name_bytes \<Rightarrow>
          let name_bytes = (if length name_bytes \<ge> 15 then take 14 name_bytes @ [0]
                            else name_bytes @ [0])
          in Inr (ljust 15 0 name_bytes))"

text \<open>One pass of the second loop: the 32-byte index record of an entry.\<close>

definition index_record :: "file_entry \<Rightarrow> error + bytes" where
  "index_record entry =
     (case entry of (fname, orig_size, stored_size, f_offset) \<Rightarrow>
       (case name_field fname of Inl e \<Rightarrow> Inl e | Inr name_bytes \<Rightarrow>
       (case struct_pack_I orig_size of Inl e \<Rightarrow> Inl e | Inr unpacked \<Rightarrow>
       (case struct_pack_I stored_size of Inl e \<Rightarrow> Inl e | Inr stored \<Rightarrow>
          Inr (name_bytes @ replicate 9 0 @ unpacked @ stored)))))"

fun index_loop :: "file_entry list \<Rightarrow> bytes \<Rightarrow> error + bytes" where
  "index_loop [] index_table = Inr index_table"
| "index_loop (entry # rest) index_table =
     (case index_record entry of
        Inl e \<Rightarrow> Inl e
      | Inr r \<Rightarrow> index_loop rest (index_table @ r))"

text \<open>
  From the end of the first loop to the archive image: header, index table and the
  concatenation \<open>header + file_data + index_table\<close> that is written out.
\<close>

definition assemble :: "file_entry list \<times> bytes \<times> int \<Rightarrow> error + bytes" where
  "assemble st =
     (case st of (file_entries, file_data, data_offset) \<Rightarrow>
       (let file_count = int (length file_entries);
            index_offset = data_offset
        in (case build_header index_offset file_count of Inl e \<Rightarrow> Inl e | Inr header \<Rightarrow>
           (case index_loop file_entries [] of Inl e \<Rightarrow> Inl e | Inr index_table \<Rightarrow>
              Inr (header @ file_data @ index_table)))))"

text \<open>
  The archive image of a list of (name, content) pairs: what \<open>pack_fa2\<close> computes
  from the files it has read, in the order it has read them.
\<close>

definition build :: "(pystr \<times> bytes) list \<Rightarrow> error + bytes" where
  "build entries = assemble (data_loop entries ([], [], 0x10))"

subsection \<open>The file system around the packer\<close>

text \<open>
  What \<open>pack_fa2\<close> sees of its environment. \<open>listdir\<close> is the result of
  \<open>os.listdir(directory)\<close>, in the order the system gives (\<open>None\<close>: it raises);
  \<open>isfile\<close> is \<open>os.path.isfile\<close> on the joined path; \<open>read_file\<close> is
  \<open>open(..., "rb")\<close> followed by \<open>read()\<close> (\<open>None\<close>: one of them raises).
  \<open>output_file\<close> is the content of the file of that name (\<open>None\<close>: no such file).
  \<open>open_fails\<close> says that \<open>open(output_file, "wb")\<close> raises; \<open>write_fault = Some k\<close>
  says that writing raises once \<open>k\<close> bytes have reached the file; \<open>print_fault = Some e\<close>
  says that the \<open>print\<close> that ends the function raises \<open>e\<close> (the standard output is
  closed, or cannot encode the name of the output file).
\<close>

record filesystem =
  listdir :: "pystr list option"
  isfile :: "pystr \<Rightarrow> bool"
  read_file :: "pystr \<Rightarrow> bytes option"
  output_file :: "bytes option"
  open_fails :: bool
  write_fault :: "nat option"
  print_fault :: "error option"

text \<open>The first loop as the source has it, reading each file as it goes.\<close>

fun read_loop ::
  "(pystr \<Rightarrow> bytes option) \<Rightarrow> pystr list \<Rightarrow> file_entry list \<times> bytes \<times> int \<Rightarrow>
     error + file_entry list \<times> bytes \<times> int" where
  "read_loop rd [] st = Inr st"
| "read_loop rd (fname # rest) st =
     (case rd fname of
        None \<Rightarrow> Inl OSError
      | Some data \<Rightarrow> read_loop rd rest (add_file fname data st))"

text \<open>
  \<open>with open(output_file, "wb") as out\<close> and the three writes. Opening truncates the
  file; the writes append header, data and index in this order, so a write that raises
  leaves a prefix of the image.
\<close>

definition write_archive :: "filesystem \<Rightarrow> bytes \<Rightarrow> (error + unit) \<times> bytes option" where
  "write_archive fs archive =
     (if open_fails fs then (Inl OSError, output_file fs)
      else (case write_fault fs of
              None \<Rightarrow> (Inr (), Some archive)
            | Some k \<Rightarrow> (Inl OSError, Some (take k archive))))"

text \<open>
  The \<open>print\<close> after the \<open>with\<close> block, when the output file is written and closed:
  it returns or raises.
\<close>

definition print_message :: "filesystem \<Rightarrow> error + unit" where
  "print_message fs = (case print_fault fs of None \<Rightarrow> Inr () | Some e \<Rightarrow> Inl e)"

text \<open>
  \<open>pack_fa2(directory, output_file)\<close>: how the call ends (\<open>Inl\<close> the exception it
  raises) and what the output file holds then.
\<close>

definition pack_fa2 :: "filesystem \<Rightarrow> (error + unit) \<times> bytes option" where
  "pack_fa2 fs =
     (case listdir fs of
        None \<Rightarrow> (Inl OSError, output_file fs)
      | Some names \<Rightarrow>
         (let files = sort (filter (isfile fs) names)
          in (case read_loop (read_file fs) files ([], [], 0x10) of
                Inl e \<Rightarrow> (Inl e, output_file fs)
              | Inr st \<Rightarrow>
                 (case assemble st of
                    Inl e \<Rightarrow> (Inl e, output_file fs)
                  | Inr archive \<Rightarrow>
                     (case write_archive fs archive of
                        (Inl e, out) \<Rightarrow> (Inl e, out)
                      | (Inr u, out) \<Rightarrow> (print_message fs, out))))))"

text \<open>
  The archive image of the files of the directory, when all of them can be read and the
  image can be assembled: the complete archive that a run has to write.
\<close>

definition directory_archive :: "filesystem \<Rightarrow> bytes option" where
  "directory_archive fs =
     (case listdir fs of
        None \<Rightarrow> None
      | Some names \<Rightarrow>
         (let files = sort (filter (isfile fs) names)
          in if list_all (\<lambda>f. read_file fs f \<noteq> None) files
             then (case build (map (\<lambda>f. (f, the (read_file fs f))) files) of
                     Inl e \<Rightarrow> None
                   | Inr archive \<Rightarrow> Some archive)
             else None))"

section \<open>The layout as the specification describes it\<close>

text \<open>
  The padded size of a content, the data offset reached after a list of entries, the
  entries of \<open>file_entries\<close> laid out from a given offset on, their data offsets, the
  padded content of one file and the whole data region (steps 2 to 4 of the
  specification's algorithm). The lemmas below show that the loops of the packer compute
  exactly these.
\<close>

definition padded_size :: "bytes \<Rightarrow> int" where
  "padded_size data = align16 (int (length data))"

definition data_end :: "int \<Rightarrow> (pystr \<times> bytes) list \<Rightarrow> int" where
  "data_end off entries = off + sum_list (map (\<lambda>e. padded_size (snd e)) entries)"

fun entries_at :: "int \<Rightarrow> (pystr \<times> bytes) list \<Rightarrow> file_entry list" where
  "entries_at off [] = []"
| "entries_at off ((fname, data) # rest) =
     (fname, int (length data), int (length data), off) # entries_at (off + padded_size data) rest"

definition offsets_at :: "int \<Rightarrow> (pystr \<times> bytes) list \<Rightarrow> int list" where
  "offsets_at off entries =
     map (\<lambda>(fname, orig_size, stored_size, data_offset). data_offset) (entries_at off entries)"

definition padded :: "bytes \<Rightarrow> bytes" where
  "padded data = data @ replicate (nat (padded_size data - int (length data))) 0"

definition data_region :: "(pystr \<times> bytes) list \<Rightarrow> bytes" where
  "data_region entries = concat (map (\<lambda>e. padded (snd e)) entries)"

text \<open>The data offsets that the first loop of the packer records, one for each entry.\<close>

definition data_offsets :: "(pystr \<times> bytes) list \<Rightarrow> int list" where
  "data_offsets entries =
     map (\<lambda>(fname, orig_size, stored_size, data_offset). data_offset)
       (fst (data_loop entries ([], [], 0x10)))"

section \<open>Reading an archive\<close>

text \<open>An unsigned little-endian 32-bit field of a byte string, at a byte offset.\<close>

definition le32 :: "bytes \<Rightarrow> nat" where
  "le32 bs =
     (case bs of
        [b0, b1, b2, b3] \<Rightarrow> unat b0 + 256 * unat b1 + 65536 * unat b2 + 16777216 * unat b3
      | _ \<Rightarrow> 0)"

definition u32_at :: "bytes \<Rightarrow> nat \<Rightarrow> nat" where
  "u32_at bs off = le32 (take 4 (drop off bs))"

text \<open>
  Modelled from the spec: the test for a continuation byte of UTF-8, used by the decoder
  of names that an archive reader needs; the repository has no reader.
\<close>

definition is_cont :: "byte \<Rightarrow> bool" where
  "is_cont b = (0x80 \<le> unat b \<and> unat b < 0xC0)"

text \<open>
  Modelled from the spec: the decoder of names that an archive reader needs, the inverse
  of the conversion of a name to bytes; the repository has no reader. A lead byte
  announces one to four bytes for a code point; a stray or missing continuation byte
  is an error.
\<close>

fun utf8_decode :: "bytes \<Rightarrow> pystr option" where
  "utf8_decode [] = Some []"
| "utf8_decode (b # bs) =
     (if unat b < 0x80 then map_option ((#) (unat b)) (utf8_decode bs)
      else if unat b < 0xC0 then None
      else if unat b < 0xE0 then
        (case bs of
           b1 # r \<Rightarrow>
             if is_cont b1
             then map_option ((#) ((unat b - 0xC0) * 64 + (unat b1 - 0x80))) (utf8_decode r)
             else None
         | _ \<Rightarrow> None)
      else if unat b < 0xF0 then
        (case bs of
           b1 # b2 # r \<Rightarrow>
             if is_cont b1 \<and> is_cont b2
             then map_option
                    ((#) ((unat b - 0xE0) * 4096 + (unat b1 - 0x80) * 64 + (unat b2 - 0x80)))
                    (utf8_decode r)
             else None
         | _ \<Rightarrow> None)
      else
        (case bs of
           b1 # b2 # b3 # r \<Rightarrow>
             if is_cont b1 \<and> is_cont b2 \<and> is_cont b3
             then map_option
                    ((#) ((unat b - 0xF0) * 262144 + (unat b1 - 0x80) * 4096
                          + (unat b2 - 0x80) * 64 + (unat b3 - 0x80)))
                    (utf8_decode r)
             else None
         | _ \<Rightarrow> None))"

text \<open>
  Modelled from the spec: the loop of an archive reader over the index records (the
  record of section 3 and the table of section 6); the repository has no reader. Each
  record has 32 bytes: the name up to its null terminator in the first 15, the original
  size at offset 24 and the stored size at offset 28. A record carries no offset: the
  content of the first entry is at 16, and each later one \<open>align16(originalSize)\<close>
  further on.
\<close>

fun read_entries :: "bytes \<Rightarrow> nat \<Rightarrow> bytes \<Rightarrow> nat \<Rightarrow> (pystr \<times> bytes) list option" where
  "read_entries archive 0 index off = Some []"
| "read_entries archive (Suc n) index off =
     (if length index < 32 then None
      else
        (let original_size = u32_at index 24;
             stored_size = u32_at index 28
         in (case utf8_decode (takeWhile (\<lambda>b. b \<noteq> 0) (take 15 index)) of
               None \<Rightarrow> None
             | Some name \<Rightarrow>
                 if length archive < off + stored_size then None
                 else
                   (case read_entries archive n (drop 32 index)
                           (off + nat (align16 (int original_size))) of
                      None \<Rightarrow> None
                    | Some rest \<Rightarrow> Some ((name, take stored_size (drop off archive)) # rest)))))"

text \<open>
  Modelled from the spec: the archive reader, the inverse of the layout of section 4.1;
  the repository has no reader. It checks the signature and the flags of the header
  and reads \<open>entryCount\<close> records from \<open>indexOffset\<close> on.
\<close>

definition parse :: "bytes \<Rightarrow> (pystr \<times> bytes) list option" where
  "parse archive =
     (if length archive < 16 \<or> u32_at archive 0 \<noteq> 0x00324146 \<or> u32_at archive 4 \<noteq> 0
      then None
      else
        (let index_offset = u32_at archive 8;
             entry_count = u32_at archive 12
         in if length archive < index_offset + 32 * entry_count then None
            else read_entries archive entry_count (drop index_offset archive) 16))"

section \<open>Worked examples\<close>

text \<open>
  The example of the specification: \<open>a.txt\<close> holding \<open>hi\<close> and \<open>b.dat\<close> holding
  twenty zero bytes, and the 128 bytes of its archive.
\<close>

definition example_entries :: "(pystr \<times> bytes) list" where
  "example_entries =
     [([97, 46, 116, 120, 116], [0x68, 0x69]), ([98, 46, 100, 97, 116], replicate 20 0)]"

definition example_archive :: bytes where
  "example_archive =
     [70, 65, 50, 0, 0, 0, 0, 0, 64, 0, 0, 0, 2, 0, 0, 0,
      104, 105, 0, 0, 0, 0, 0, 0, 0, 0, 0, 0, 0, 0, 0, 0,
      0, 0, 0, 0, 0, 0, 0, 0, 0, 0, 0, 0, 0, 0, 0, 0,
      0, 0, 0, 0, 0, 0, 0, 0, 0, 0, 0, 0, 0, 0, 0, 0,
      97, 46, 116, 120, 116, 0, 0, 0, 0, 0, 0, 0, 0, 0, 0, 0,
      0, 0, 0, 0, 0, 0, 0, 0, 2, 0, 0, 0, 2, 0, 0, 0,
      98, 46, 100, 97, 116, 0, 0, 0, 0, 0, 0, 0, 0, 0, 0, 0,
      0, 0, 0, 0, 0, 0, 0, 0, 20, 0, 0, 0, 20, 0, 0, 0]"

text \<open>
  A directory holding these two files, listed in reverse order, and an output file that
  already exists with the content \<open>[1, 2, 3]\<close>.
\<close>

definition example_fs :: filesystem where
  "example_fs =
     \<lparr>listdir = Some [[98, 46, 100, 97, 116], [97, 46, 116, 120, 116]],
      isfile = (\<lambda>f. True),
      read_file = map_of example_entries,
      output_file = Some [1, 2, 3],
      open_fails = False,
      write_fault = None,
      print_fault = None\<rparr>"

text \<open>
  The long name of the specification's truncation example,
  \<open>this_name_is_definitely_too_long.txt\<close>, as code points; one entry under that name,
  and the archive built from it.
\<close>

definition long_name :: pystr where
  "long_name =
     [116, 104, 105, 115, 95, 110, 97, 109, 101, 95, 105, 115, 95, 100, 101, 102, 105, 110,
      105, 116, 101, 108, 121, 95, 116, 111, 111, 95, 108, 111, 110, 103, 46, 116, 120, 116]"

definition long_entries :: "(pystr \<times> bytes) list" where
  "long_entries = [(long_name, [1, 2, 3])]"

definition long_archive :: bytes where
  "long_archive =
     [70, 65, 50, 0, 0, 0, 0, 0, 32, 0, 0, 0, 1, 0, 0, 0,
      1, 2, 3, 0, 0, 0, 0, 0, 0, 0, 0, 0, 0, 0, 0, 0,
      116, 104, 105, 115, 95, 110, 97, 109, 101, 95, 105, 115, 95, 100, 0, 0,
      0, 0, 0, 0, 0, 0, 0, 0, 3, 0, 0, 0, 3, 0, 0, 0]"

text \<open>
  Thirteen letters \<open>a\<close>, then U+00E9 (two bytes in UTF-8, the fourteenth and the
  fifteenth of the encoding), then \<open>b\<close>.
\<close>

definition straddling_name :: pystr where
  "straddling_name = replicate 13 97 @ [0xE9, 98]"





text \<open>
  One entry with empty content under \<open>straddling_name\<close>, and the archive built from
  it.
\<close>

definition straddling_archive :: bytes where
  "straddling_archive =
     [70, 65, 50, 0, 0, 0, 0, 0, 16, 0, 0, 0, 1, 0, 0, 0,
      97, 97, 97, 97, 97, 97, 97, 97, 97, 97, 97, 97, 97, 0xC3, 0, 0,
      0, 0, 0, 0, 0, 0, 0, 0, 0, 0, 0, 0, 0, 0, 0, 0]"

text \<open>Two entries with empty content, and the archive built from them.\<close>

definition empty_entries :: "(pystr \<times> bytes) list" where
  "empty_entries = [([97], []), ([98], [])]"

definition empty_archive :: bytes where
  "empty_archive =
     [70, 65, 50, 0, 0, 0, 0, 0, 16, 0, 0, 0, 2, 0, 0, 0,
      97, 0, 0, 0, 0, 0, 0, 0, 0, 0, 0, 0, 0, 0, 0, 0,
      0, 0, 0, 0, 0, 0, 0, 0, 0, 0, 0, 0, 0, 0, 0, 0,
      98, 0, 0, 0, 0, 0, 0, 0, 0, 0, 0, 0, 0, 0, 0, 0,
      0, 0, 0, 0, 0, 0, 0, 0, 0, 0, 0, 0, 0, 0, 0, 0]"

section \<open>Arithmetic of the layout\<close>

lemma and_not_15: "(k::int) AND NOT 15 = k div 16 * 16"
proof -
  have "(15::int) = mask 4" by (simp add: mask_eq_exp_minus_1)
  moreover have "(k::int) AND NOT (mask 4) = push_bit 4 (drop_bit 4 k)"
    by (rule bit_eqI) (auto simp add: bit_simps)
  ultimately show ?thesis by (simp add: push_bit_eq_mult drop_bit_eq_div)
qed

lemma align16_eq: "align16 n = (n + 15) div 16 * 16"
  unfolding align16_def by (rule and_not_15)

lemma align16_ge: "n \<le> align16 n"
  unfolding align16_eq by presburger

lemma align16_less: "align16 n < n + 16"
  unfolding align16_eq by presburger

lemma align16_dvd: "16 dvd align16 n"
  unfolding align16_eq by simp

lemma align16_fixed: "16 dvd n \<Longrightarrow> align16 n = n"
  unfolding align16_eq by presburger

lemma align16_0: "align16 0 = 0"
  by (simp add: align16_fixed)

section \<open>Little-endian fields\<close>

lemma unat_byte_of_int: "unat (of_int n :: byte) = nat (n mod 256)"
  by (simp add: unat_eq_nat_uint uint_word_of_int)

lemma le_bytes_int:
  assumes "0 \<le> (n::int)" "n < 4294967296"
  shows "n mod 256 + 256 * (n div 256 mod 256) +
         65536 * (n div 65536 mod 256) +  16777216 * (n div 16777216 mod 256) = n"
proof -
  define a where "a = n div 256"
  define b where "b = a div 256"
  define c where "c = b div 256"
  have n: "n = n mod 256 + 256 * a" by (simp add: a_def)
  have a: "a = a mod 256 + 256 * b" by (simp add: b_def)
  have b: "b = b mod 256 + 256 * c" by (simp add: c_def)
  have b': "n div 65536 = b" unfolding b_def a_def by (simp add: zdiv_zmult2_eq[symmetric])
  have c': "n div 16777216 = c" unfolding c_def b_def a_def by (simp add: zdiv_zmult2_eq[symmetric])
  have "c < 256" "0 \<le> c" using assms unfolding c'[symmetric] by simp_all
  then have c: "c mod 256 = c" by simp
  show ?thesis unfolding b' c' a_def[symmetric] c using n a b by linarith
qed

lemma struct_pack_I_Inr:
  "struct_pack_I n = Inr bs \<longleftrightarrow>
     0 \<le> n \<and> n < 4294967296 \<and>
     bs = [of_int n, of_int (n div 256), of_int (n div 65536), of_int (n div 16777216)]"
  unfolding struct_pack_I_def by (cases "0 \<le> n \<and> n < 2 ^ 32") (simp_all only: if_True if_False sum.inject sum.distinct, auto)

lemma le32_four: "le32 [b0, b1, b2, b3] = unat b0 + 256 * unat b1 + 65536 * unat b2 + 16777216 * unat b3"
  by (simp add: le32_def)

lemma int_unat_byte: "int (unat (of_int n :: byte)) = n mod 256"
  by (simp add: unat_byte_of_int)

lemma le32_pack: "struct_pack_I n = Inr bs \<Longrightarrow> int (le32 bs) = n"
proof -
  assume a: "struct_pack_I n = Inr bs"
  from a have n: "0 \<le> n" "n < 4294967296"
    unfolding struct_pack_I_Inr by blast+
  from a have bs: "bs = [of_int n, of_int (n div 256), of_int (n div 65536), of_int (n div 16777216)]"
    unfolding struct_pack_I_Inr by blast
  have "int (le32 bs) = n mod 256 + 256 * (n div 256 mod 256) +
         65536 * (n div 65536 mod 256) +  16777216 * (n div 16777216 mod 256)"
    unfolding bs le32_four by (simp only: of_nat_add of_nat_mult int_unat_byte of_nat_numeral)
  then show ?thesis using le_bytes_int[OF n] by (simp only:)
qed

section \<open>The loops\<close>

lemma add_file_eq:
  "add_file fname data (fe, fd, off) =
     (fe @ [(fname, int (length data), int (length data), off)], fd @ padded data,
      off + padded_size data)"
  by (simp add: add_file_def Let_def padded_def padded_size_def)

lemma data_end_Nil: "data_end off [] = off"
  by (simp add: data_end_def)

lemma data_end_Cons: "data_end off ((fname, data) # rest) = data_end (off + padded_size data) rest"
  by (simp add: data_end_def)

lemma data_region_Cons: "data_region ((fname, data) # rest) = padded data @ data_region rest"
  by (simp add: data_region_def)

lemma data_loop_eq:
  "data_loop entries (fe, fd, off) =
     (fe @ entries_at off entries, fd @ data_region entries, data_end off entries)"
proof (induction entries arbitrary: fe fd off)
  case Nil
  show ?case by (simp add: data_region_def data_end_Nil)
next
  case (Cons e rest)
  obtain fname data where e: "e = (fname, data)" by (cases e)
  show ?case
    unfolding e data_loop.simps add_file_eq Cons.IH data_end_Cons data_region_Cons
    by simp
qed

lemma length_entries_at: "length (entries_at off entries) = length entries"
  by (induction entries arbitrary: off) auto

lemma length_padded: "int (length (padded data)) = padded_size data"
  using align16_ge[of "int (length data)"] by (simp add: padded_def padded_size_def)


lemma length_data_region: "int (length (data_region entries)) = data_end 0 entries"
proof (induction entries)
  case Nil
  show ?case by (simp add: data_region_def data_end_def)
next
  case (Cons e rest)
  then show ?case by (simp add: data_region_def data_end_def length_padded)
qed

lemma data_end_shift: "data_end off entries = off + data_end 0 entries"
  by (simp add: data_end_def)

section \<open>Header and index\<close>

lemma length_struct_pack_I: "struct_pack_I n = Inr bs \<Longrightarrow> length bs = 4"
  unfolding struct_pack_I_Inr by simp


lemma struct_pack_I_Inl: "struct_pack_I n = Inl e \<Longrightarrow> e = StructError \<and> \<not> (0 \<le> n \<and> n < 4294967296)"
  unfolding struct_pack_I_def by (cases "0 \<le> n \<and> n < 2 ^ 32") (auto split: if_splits)

lemma struct_pack_I_sig: "struct_pack_I 0x00324146 = Inr [0x46, 0x41, 0x32, 0]"
  by (simp add: struct_pack_I_def)

lemma struct_pack_I_0: "struct_pack_I 0 = Inr [0, 0, 0, 0]"
  by (simp add: struct_pack_I_def)

lemma build_header_Inr:
  "build_header index_offset file_count = Inr header \<longleftrightarrow>
     (\<exists>off cnt. struct_pack_I index_offset = Inr off \<and> struct_pack_I file_count = Inr cnt \<and>
        header = [0x46, 0x41, 0x32, 0, 0, 0, 0, 0] @ off @ cnt)"
  unfolding build_header_def struct_pack_I_sig struct_pack_I_0
  by (auto split: sum.splits)

lemma length_build_header: "build_header index_offset file_count = Inr header \<Longrightarrow> length header = 16"
  unfolding build_header_Inr by (auto dest!: length_struct_pack_I)

lemma u32_at_header_8:
  assumes "build_header index_offset file_count = Inr header"
  shows "int (u32_at (header @ rest) 8) = index_offset"
proof -
  from assms obtain off cnt where o: "struct_pack_I index_offset = Inr off"
    and c: "struct_pack_I file_count = Inr cnt"
    and h: "header = [0x46, 0x41, 0x32, 0, 0, 0, 0, 0] @ off @ cnt"
    unfolding build_header_Inr by blast
  have "length off = 4" using o by (rule length_struct_pack_I)
  then have "take 4 (drop 8 (header @ rest)) = off" unfolding h by simp
  then show ?thesis unfolding u32_at_def using le32_pack[OF o] by simp
qed

lemma u32_at_header_12:
  assumes "build_header index_offset file_count = Inr header"
  shows "int (u32_at (header @ rest) 12) = file_count"
proof -
  from assms obtain off cnt where o: "struct_pack_I index_offset = Inr off"
    and c: "struct_pack_I file_count = Inr cnt"
    and h: "header = [0x46, 0x41, 0x32, 0, 0, 0, 0, 0] @ off @ cnt"
    unfolding build_header_Inr by blast
  have "length off = 4" "length cnt = 4" using o c by (auto dest: length_struct_pack_I)
  then have "take 4 (drop 12 (header @ rest)) = cnt" unfolding h by simp
  then show ?thesis unfolding u32_at_def using le32_pack[OF c] by simp
qed

lemma build_Inr:
  "build entries = Inr archive \<longleftrightarrow>
     (\<exists>header index_table.
        build_header (data_end 16 entries) (int (length entries)) = Inr header \<and>
        index_loop (entries_at 16 entries) [] = Inr index_table \<and>
        archive = header @ data_region entries @ index_table)"
  unfolding build_def data_loop_eq assemble_def
  by (auto simp: Let_def length_entries_at split: sum.splits)

lemma name_field_Inr:
  "name_field fname = Inr nf \<longleftrightarrow>
     (\<exists>enc. utf8_encode fname = Inr enc \<and>
        nf = (if 15 \<le> length enc then take 14 enc @ [0]
              else enc @ [0] @ replicate (14 - length enc) 0))"
  unfolding name_field_def ljust_def by (auto simp: Let_def split: sum.splits)

lemma length_name_field: "name_field fname = Inr nf \<Longrightarrow> length nf = 15"
  unfolding name_field_Inr by auto

lemma name_field_Inl: "name_field fname = Inl e \<longleftrightarrow> utf8_encode fname = Inl e"
  unfolding name_field_def by (auto simp: Let_def split: sum.splits)

lemma index_record_Inr:
  "index_record (fname, orig_size, stored_size, f_offset) = Inr r \<longleftrightarrow>
     (\<exists>nf unpacked stored. name_field fname = Inr nf \<and> struct_pack_I orig_size = Inr unpacked \<and>
        struct_pack_I stored_size = Inr stored \<and> r = nf @ replicate 9 0 @ unpacked @ stored)"
  unfolding index_record_def by (auto split: sum.splits)

lemma length_index_record: "index_record entry = Inr r \<Longrightarrow> length r = 32"
proof -
  assume a: "index_record entry = Inr r"
  obtain fname orig_size stored_size f_offset where e: "entry = (fname, orig_size, stored_size, f_offset)"
    by (cases entry)
  from a obtain nf unpacked stored where "name_field fname = Inr nf"
    "struct_pack_I orig_size = Inr unpacked" "struct_pack_I stored_size = Inr stored"
    "r = nf @ replicate 9 0 @ unpacked @ stored"
    unfolding e index_record_Inr by blast
  then show ?thesis by (simp add: length_name_field length_struct_pack_I)
qed

lemma index_loop_acc:
  "index_loop es acc = (case index_loop es [] of Inl e \<Rightarrow> Inl e | Inr t \<Rightarrow> Inr (acc @ t))"
proof (induction es arbitrary: acc)
  case Nil
  show ?case by simp
next
  case (Cons e es)
  show ?case
  proof (cases "index_record e")
    case (Inl err)
    then show ?thesis by simp
  next
    case (Inr r)
    show ?thesis
      using Cons.IH[of "acc @ r"] Cons.IH[of r] Inr by (cases "index_loop es []") simp_all
  qed
qed

lemma index_loop_Cons:
  "index_loop (e # es) [] =
     (case index_record e of
        Inl err \<Rightarrow> Inl err
      | Inr r \<Rightarrow> (case index_loop es [] of Inl err \<Rightarrow> Inl err | Inr t \<Rightarrow> Inr (r @ t)))"
proof (cases "index_record e")
  case (Inl err)
  then show ?thesis by simp
next
  case (Inr r)
  show ?thesis using index_loop_acc[of es r] Inr by simp
qed

lemma length_index_loop: "index_loop es [] = Inr t \<Longrightarrow> length t = 32 * length es"
proof (induction es arbitrary: t)
  case Nil
  then show ?case by simp
next
  case (Cons e es)
  from Cons.prems obtain r t' where r: "index_record e = Inr r" and t': "index_loop es [] = Inr t'"
    and t: "t = r @ t'"
    unfolding index_loop_Cons by (auto split: sum.splits)
  show ?case unfolding t using Cons.IH[OF t'] length_index_record[OF r] by simp
qed

lemma data_end_sum:
  "data_end off entries = off + sum_list (map (\<lambda>e. align16 (int (length (snd e)))) entries)"
  by (simp add: data_end_def padded_size_def)

lemma u32_at_build_8:
  assumes "build entries = Inr archive"
  shows "int (u32_at archive 8) = data_end 16 entries"
proof -
  from assms obtain header index_table where
    h: "build_header (data_end 16 entries) (int (length entries)) = Inr header"
    and a: "archive = header @ data_region entries @ index_table"
    unfolding build_Inr by blast
  show ?thesis unfolding a using h by (rule u32_at_header_8)
qed

lemma u32_at_build_12:
  assumes "build entries = Inr archive"
  shows "int (u32_at archive 12) = int (length entries)"
proof -
  from assms obtain header index_table where
    h: "build_header (data_end 16 entries) (int (length entries)) = Inr header"
    and a: "archive = header @ data_region entries @ index_table"
    unfolding build_Inr by blast
  show ?thesis unfolding a using h by (rule u32_at_header_12)
qed

lemma build_Nil: "build [] = Inr [0x46, 0x41, 0x32, 0, 0, 0, 0, 0, 16, 0, 0, 0, 0, 0, 0, 0]"
  by (simp add: build_def assemble_def build_header_def struct_pack_I_def)

lemma length_build:
  assumes "build entries = Inr archive"
  shows "int (length archive) = data_end 16 entries + 32 * int (length entries)"
proof -
  from assms obtain header index_table where
    h: "build_header (data_end 16 entries) (int (length entries)) = Inr header"
    and i: "index_loop (entries_at 16 entries) [] = Inr index_table"
    and a: "archive = header @ data_region entries @ index_table"
    unfolding build_Inr by blast
  show ?thesis
    unfolding a using length_build_header[OF h] length_index_loop[OF i]
      length_data_region[of entries] data_end_shift[of 16 entries]
    by (simp add: length_entries_at)
qed

section \<open>Offsets of the entries\<close>

lemma data_offsets_eq:
  "data_offsets entries =
     map (\<lambda>(fname, orig_size, stored_size, data_offset). data_offset) (entries_at 16 entries)"
  unfolding data_offsets_def data_loop_eq by simp

lemma offsets_at_Nil: "offsets_at off [] = []"
  by (simp add: offsets_at_def)

lemma offsets_at_Cons:
  "offsets_at off (e # rest) = off # offsets_at (off + padded_size (snd e)) rest"
  by (cases e) (simp add: offsets_at_def)

lemma length_offsets_at: "length (offsets_at off entries) = length entries"
  by (simp add: offsets_at_def length_entries_at)

lemma offsets_at_step:
  "Suc i < length entries \<Longrightarrow>
     offsets_at off entries ! Suc i = offsets_at off entries ! i + padded_size (snd (entries ! i))"
proof (induction entries arbitrary: off i)
  case Nil
  then show ?case by simp
next
  case (Cons e rest)
  show ?case
  proof (cases i)
    case 0
    with Cons.prems obtain e' rest' where "rest = e' # rest'" by (cases rest) auto
    then show ?thesis using 0 by (simp add: offsets_at_Cons)
  next
    case (Suc j)
    with Cons.prems have "Suc j < length rest" by simp
    from Cons.IH[OF this] show ?thesis using Suc by (simp add: offsets_at_Cons)
  qed
qed

lemma offsets_at_dvd:
  "16 dvd off \<Longrightarrow> i < length entries \<Longrightarrow> 16 dvd offsets_at off entries ! i"
proof (induction entries arbitrary: off i)
  case Nil
  then show ?case by simp
next
  case (Cons e rest)
  show ?case
  proof (cases i)
    case 0
    then show ?thesis using Cons.prems by (simp add: offsets_at_Cons)
  next
    case (Suc j)
    have "16 dvd off + padded_size (snd e)"
      using Cons.prems(1) align16_dvd by (simp add: padded_size_def)
    from Cons.IH[OF this, of j] show ?thesis using Suc Cons.prems by (simp add: offsets_at_Cons)
  qed
qed

section \<open>When the build succeeds\<close>







section \<open>Where the contents and the records lie\<close>

lemma entries_at_nth:
  "i < length entries \<Longrightarrow>
     entries_at off entries ! i =
       (fst (entries ! i), int (length (snd (entries ! i))), int (length (snd (entries ! i))),
        offsets_at off entries ! i)"
proof (induction entries arbitrary: off i)
  case Nil
  then show ?case by simp
next
  case (Cons e rest)
  obtain fname data where e: "e = (fname, data)" by (cases e)
  show ?case
  proof (cases i)
    case 0
    then show ?thesis unfolding e by (simp add: offsets_at_Cons)
  next
    case (Suc j)
    with Cons.prems have "j < length rest" by simp
    from Cons.IH[OF this, of "off + padded_size data"] show ?thesis
      unfolding e using Suc by (simp add: offsets_at_Cons)
  qed
qed

lemma data_region_split:
  "i < length entries \<Longrightarrow>
     \<exists>pre post. data_region entries = pre @ padded (snd (entries ! i)) @ post
        \<and> int (length pre) = offsets_at off entries ! i - off"
proof (induction entries arbitrary: off i)
  case Nil
  then show ?case by simp
next
  case (Cons e rest)
  obtain fname data where e: "e = (fname, data)" by (cases e)
  show ?case
  proof (cases i)
    case 0
    have "data_region (e # rest) = [] @ padded (snd ((e # rest) ! 0)) @ data_region rest"
      unfolding e by (simp add: data_region_Cons)
    moreover have "int (length ([] :: bytes)) = offsets_at off (e # rest) ! 0 - off"
      by (simp add: offsets_at_Cons)
    ultimately show ?thesis unfolding 0 by blast
  next
    case (Suc j)
    with Cons.prems have "j < length rest" by simp
    from Cons.IH[OF this, of "off + padded_size data"] obtain pre post where
      r: "data_region rest = pre @ padded (snd (rest ! j)) @ post"
      and l: "int (length pre) = offsets_at (off + padded_size data) rest ! j - (off + padded_size data)"
      by blast
    have "data_region (e # rest) = (padded data @ pre) @ padded (snd ((e # rest) ! i)) @ post"
      unfolding e data_region_Cons r Suc by simp
    moreover have "int (length (padded data @ pre)) = offsets_at off (e # rest) ! i - off"
      unfolding e Suc using l length_padded[of data] by (simp add: offsets_at_Cons)
    ultimately show ?thesis by blast
  qed
qed

lemma build_data_at:
  assumes b: "build entries = Inr archive" and i: "i < length entries"
  shows "take (nat (padded_size (snd (entries ! i)))) (drop (nat (data_offsets entries ! i)) archive)
           = padded (snd (entries ! i))"
proof -
  from b obtain header index_table where
    h: "build_header (data_end 16 entries) (int (length entries)) = Inr header"
    and a: "archive = header @ data_region entries @ index_table"
    unfolding build_Inr by blast
  have lh: "length header = 16" using h by (rule length_build_header)
  from data_region_split[OF i, of 16] obtain pre post where
    r: "data_region entries = pre @ padded (snd (entries ! i)) @ post"
    and l: "int (length pre) = offsets_at 16 entries ! i - 16" by blast
  have d: "data_offsets entries = offsets_at 16 entries"
    by (simp add: data_offsets_eq offsets_at_def)
  have n: "nat (data_offsets entries ! i) = length (header @ pre)"
    unfolding d using l lh by simp
  have p: "nat (padded_size (snd (entries ! i))) = length (padded (snd (entries ! i)))"
    using length_padded[of "snd (entries ! i)"] by simp
  have "archive = (header @ pre) @ padded (snd (entries ! i)) @ (post @ index_table)"
    unfolding a r by simp
  then show ?thesis unfolding n p by simp
qed

lemma index_loop_nth:
  "index_loop es [] = Inr t \<Longrightarrow> i < length es \<Longrightarrow>
     index_record (es ! i) = Inr (take 32 (drop (32 * i) t))"
proof (induction es arbitrary: t i)
  case Nil
  then show ?case by simp
next
  case (Cons e es)
  from Cons.prems(1) obtain r t' where r: "index_record e = Inr r" and t': "index_loop es [] = Inr t'"
    and t: "t = r @ t'"
    unfolding index_loop_Cons by (auto split: sum.splits)
  have lr: "length r = 32" using r by (rule length_index_record)
  show ?case
  proof (cases i)
    case 0
    then show ?thesis unfolding t using r lr by simp
  next
    case (Suc j)
    with Cons.prems(2) have "j < length es" by simp
    from Cons.IH[OF t' this] show ?thesis unfolding t Suc using lr by simp
  qed
qed

lemma file_entries_nth:
  "i < length entries \<Longrightarrow>
     fst (data_loop entries ([], [], 16)) ! i =
       (fst (entries ! i), int (length (snd (entries ! i))), int (length (snd (entries ! i))),
        data_offsets entries ! i)"
proof -
  assume i: "i < length entries"
  have d: "data_offsets entries = offsets_at 16 entries"
    by (simp add: data_offsets_eq offsets_at_def)
  show ?thesis unfolding d data_loop_eq using entries_at_nth[OF i, of 16] by simp
qed

lemma build_record_at:
  assumes b: "build entries = Inr archive" and i: "i < length entries"
  shows "index_record (fst (data_loop entries ([], [], 16)) ! i)
           = Inr (take 32 (drop (u32_at archive 8 + 32 * i) archive))"
proof -
  from b obtain header index_table where
    h: "build_header (data_end 16 entries) (int (length entries)) = Inr header"
    and t: "index_loop (entries_at 16 entries) [] = Inr index_table"
    and a: "archive = header @ data_region entries @ index_table"
    unfolding build_Inr by blast
  have lh: "length header = 16" using h by (rule length_build_header)
  have "int (length (header @ data_region entries)) = data_end 16 entries"
    using lh length_data_region[of entries] data_end_shift[of 16 entries] by simp
  then have o: "u32_at archive 8 = length (header @ data_region entries)"
    using u32_at_build_8[OF b] by linarith
  have "drop (u32_at archive 8 + 32 * i) archive = drop (32 * i) index_table"
    unfolding o unfolding a by simp
  moreover have "i < length (entries_at 16 entries)" using i by (simp add: length_entries_at)
  from index_loop_nth[OF t this]
  have "index_record (entries_at 16 entries ! i) = Inr (take 32 (drop (32 * i) index_table))" .
  moreover have "fst (data_loop entries ([], [], 16)) = entries_at 16 entries"
    unfolding data_loop_eq by simp
  ultimately show ?thesis by simp
qed

lemma record_fields:
  assumes r: "index_record (fname, orig_size, stored_size, f_offset) = Inr record"
  shows "name_field fname = Inr (take 15 record) \<and> length record = 32
       \<and> take 9 (drop 15 record) = replicate 9 0
       \<and> int (u32_at record 24) = orig_size \<and> int (u32_at record 28) = stored_size"
proof -
  from r obtain nf unpacked stored where nf: "name_field fname = Inr nf"
    and u: "struct_pack_I orig_size = Inr unpacked" and s: "struct_pack_I stored_size = Inr stored"
    and rec: "record = nf @ replicate 9 0 @ unpacked @ stored"
    unfolding index_record_Inr by blast
  have ln: "length nf = 15" using nf by (rule length_name_field)
  have lu: "length unpacked = 4" using u by (rule length_struct_pack_I)
  have ls: "length stored = 4" using s by (rule length_struct_pack_I)
  have 1: "take 15 record = nf" unfolding rec using ln by simp
  have 2: "length record = 32" unfolding rec using ln lu ls by simp
  have 3: "take 9 (drop 15 record) = replicate 9 0" unfolding rec using ln by simp
  have "take 4 (drop 24 record) = unpacked" unfolding rec using ln lu by simp
  then have 4: "int (u32_at record 24) = orig_size" unfolding u32_at_def using le32_pack[OF u] by simp
  have "take 4 (drop 28 record) = stored" unfolding rec using ln lu ls by simp
  then have 5: "int (u32_at record 28) = stored_size" unfolding u32_at_def using le32_pack[OF s] by simp
  show ?thesis using nf 1 2 3 4 5 by simp
qed

lemma file_data_at:
  assumes i: "i < length entries"
  shows "take (nat (padded_size (snd (entries ! i))))
           (drop (nat (data_offsets entries ! i - 16)) (fst (snd (data_loop entries ([], [], 16)))))
           = padded (snd (entries ! i))"
proof -
  from data_region_split[OF i, of 16] obtain pre post where
    r: "data_region entries = pre @ padded (snd (entries ! i)) @ post"
    and l: "int (length pre) = offsets_at 16 entries ! i - 16" by blast
  have d: "data_offsets entries = offsets_at 16 entries"
    by (simp add: data_offsets_eq offsets_at_def)
  have n: "nat (data_offsets entries ! i - 16) = length pre"
    unfolding d using l by simp
  have p: "nat (padded_size (snd (entries ! i))) = length (padded (snd (entries ! i)))"
    using length_padded[of "snd (entries ! i)"] by simp
  have "fst (snd (data_loop entries ([], [], 16))) = data_region entries"
    unfolding data_loop_eq by simp
  then show ?thesis unfolding n p r by simp
qed

section \<open>The packer and its file system\<close>

lemma read_loop_eq:
  "(\<forall>f \<in> set files. rd f \<noteq> None) \<Longrightarrow>
     read_loop rd files st = Inr (data_loop (map (\<lambda>f. (f, the (rd f))) files) st)"
proof (induction files arbitrary: st)
  case Nil
  show ?case by simp
next
  case (Cons f files)
  from Cons.prems obtain data where d: "rd f = Some data" by auto
  from Cons.prems have "\<forall>f \<in> set files. rd f \<noteq> None" by simp
  from Cons.IH[OF this, of "add_file f data st"] show ?case using d by simp
qed

lemma read_loop_Inl: "read_loop rd files st = Inl e \<Longrightarrow> e = OSError"
proof (induction files arbitrary: st)
  case Nil
  then show ?case by simp
next
  case (Cons f files)
  show ?case
  proof (cases "rd f")
    case None
    with Cons.prems show ?thesis by simp
  next
    case (Some data)
    with Cons.prems have "read_loop rd files (add_file f data st) = Inl e" by simp
    then show ?thesis by (rule Cons.IH)
  qed
qed

lemma pack_fa2_listdir:
  "pack_fa2 (fs\<lparr>listdir := Some names\<rparr>) =
     (case read_loop (read_file fs) (sort (filter (isfile fs) names)) ([], [], 16) of
        Inl e \<Rightarrow> (Inl e, output_file fs)
      | Inr st \<Rightarrow>
          (case assemble st of
             Inl e \<Rightarrow> (Inl e, output_file fs)
           | Inr archive \<Rightarrow>
               (case write_archive fs archive of
                  (Inl e, out) \<Rightarrow> (Inl e, out)
                | (Inr u, out) \<Rightarrow> (print_message fs, out))))"
  by (auto simp add: pack_fa2_def write_archive_def print_message_def
        split: sum.splits option.splits)

lemma pack_fa2_build:
  assumes "listdir fs = Some names"
    and "\<forall>f \<in> set names. isfile fs f \<longrightarrow> read_file fs f \<noteq> None"
  shows "pack_fa2 fs =
           (case build (map (\<lambda>f. (f, the (read_file fs f))) (sort (filter (isfile fs) names))) of
              Inl e \<Rightarrow> (Inl e, output_file fs)
            | Inr archive \<Rightarrow>
                (case write_archive fs archive of
                   (Inl e, out) \<Rightarrow> (Inl e, out)
                 | (Inr u, out) \<Rightarrow> (print_message fs, out)))"
proof -
  have "\<forall>f \<in> set (sort (filter (isfile fs) names)). read_file fs f \<noteq> None"
    using assms(2) by simp
  from read_loop_eq[OF this] show ?thesis
    unfolding pack_fa2_def build_def using assms(1) by (simp add: Let_def)
qed

lemma sort_filter_mset:
  fixes names1 :: "pystr list"
  assumes "mset names1 = mset names2"
  shows "sort (filter P names1) = sort (filter P names2)"
proof -
  have "mset (filter P names2) = mset (filter P names1)"
    using assms by (simp only: mset_filter)
  then have "mset (sort (filter P names2)) = mset (filter P names1)" by simp
  then show ?thesis by (rule properties_for_sort) simp
qed

lemma read_loop_Inr:
  "read_loop rd files st = Inr st' \<Longrightarrow> \<forall>f \<in> set files. rd f \<noteq> None"
proof (induction files arbitrary: st)
  case Nil
  show ?case by simp
next
  case (Cons f files)
  show ?case
  proof (cases "rd f")
    case None
    with Cons.prems show ?thesis by simp
  next
    case (Some data)
    with Cons.prems have "read_loop rd files (add_file f data st) = Inr st'" by simp
    from Cons.IH[OF this] Some show ?thesis by simp
  qed
qed

lemma directory_archive_eq:
  assumes l: "listdir fs = Some names"
    and r: "read_loop (read_file fs) (sort (filter (isfile fs) names)) ([], [], 16) = Inr st"
    and a: "assemble st = Inr archive"
  shows "directory_archive fs = Some archive"
proof -
  let ?files = "sort (filter (isfile fs) names)"
  have all: "\<forall>f \<in> set ?files. read_file fs f \<noteq> None" using r by (rule read_loop_Inr)
  from read_loop_eq[OF all, of "([], [], 16)"] r
  have st: "st = data_loop (map (\<lambda>f. (f, the (read_file fs f))) ?files) ([], [], 16)" by simp
  have b: "build (map (\<lambda>f. (f, the (read_file fs f))) ?files) = Inr archive"
    unfolding build_def using a st by simp
  have la: "list_all (\<lambda>f. read_file fs f \<noteq> None) ?files" using all by (simp only: list_all_iff)
  show ?thesis unfolding directory_archive_def l using la b by (simp add: Let_def)
qed

section \<open>UTF-8\<close>

lemma unat_byte_of_nat: "n < 256 \<Longrightarrow> unat (of_nat n :: byte) = n"
  by (simp add: unat_of_nat)

lemma unat_cont_byte: "unat (of_nat (128 + c mod 64) :: byte) = 128 + c mod 64"
proof -
  have "c mod 64 < 64" by simp
  then have "128 + c mod 64 < 256" by linarith
  then show ?thesis by (rule unat_byte_of_nat)
qed

lemma utf8_char_cases:
  assumes "utf8_char c = Inr b"
  obtains (one) "c < 128" "b = [of_nat c]"
  | (two) "128 \<le> c" "c < 2048" "b = [of_nat (192 + c div 64), of_nat (128 + c mod 64)]"
  | (three) "2048 \<le> c" "c < 65536"
      "b = [of_nat (224 + c div 4096), of_nat (128 + c div 64 mod 64), of_nat (128 + c mod 64)]"
  | (four) "65536 \<le> c" "c < 1114112"
      "b = [of_nat (240 + c div 262144), of_nat (128 + c div 4096 mod 64),
            of_nat (128 + c div 64 mod 64), of_nat (128 + c mod 64)]"
  using assms unfolding utf8_char_def by (auto split: if_splits)

lemma cont_byte_less: "unat (of_nat (128 + c mod 64) :: byte) < 192"
proof -
  have "c mod 64 < 64" by simp
  then have "128 + c mod 64 < 192" by linarith
  then show ?thesis by (simp only: unat_cont_byte)
qed

lemma utf8_char_last:
  assumes "utf8_char c = Inr b"
  shows "b \<noteq> [] \<and> unat (last b) < 192"
  using assms
proof (cases rule: utf8_char_cases)
  case one
  then show ?thesis by (simp add: unat_byte_of_nat)
next
  case two
  have "last b = of_nat (128 + c mod 64)" "b \<noteq> []" unfolding two(3) by simp_all
  then show ?thesis using cont_byte_less[of c] by (simp only: simp_thms)
next
  case three
  have "last b = of_nat (128 + c mod 64)" "b \<noteq> []" unfolding three(3) by simp_all
  then show ?thesis using cont_byte_less[of c] by (simp only: simp_thms)
next
  case four
  have "last b = of_nat (128 + c mod 64)" "b \<noteq> []" unfolding four(3) by simp_all
  then show ?thesis using cont_byte_less[of c] by (simp only: simp_thms)
qed

lemma utf8_encode_Cons_Inr:
  "utf8_encode (c # cs) = Inr bs \<longleftrightarrow>
     (\<exists>b bs'. utf8_char c = Inr b \<and> utf8_encode cs = Inr bs' \<and> bs = b @ bs')"
  by (auto split: sum.splits)

lemma utf8_encode_last:
  "utf8_encode s = Inr bs \<Longrightarrow> bs \<noteq> [] \<Longrightarrow> unat (last bs) < 192"
proof (induction s arbitrary: bs)
  case Nil
  then show ?case by simp
next
  case (Cons c cs)
  from Cons.prems(1) obtain b bs' where b: "utf8_char c = Inr b"
    and bs': "utf8_encode cs = Inr bs'" and bs: "bs = b @ bs'"
    unfolding utf8_encode_Cons_Inr by blast
  show ?case
  proof (cases "bs' = []")
    case True
    then show ?thesis using utf8_char_last[OF b] bs by simp
  next
    case False
    then show ?thesis using Cons.IH[OF bs' False] bs by simp
  qed
qed

section \<open>Decoding UTF-8\<close>

lemma is_cont_byte: "is_cont (of_nat (128 + c mod 64))"
proof -
  have "c mod 64 < 64" by simp
  then have "128 \<le> 128 + c mod 64 \<and> 128 + c mod 64 < 192" by linarith
  then show ?thesis unfolding is_cont_def unat_cont_byte .
qed

lemma unat_cont_minus: "unat (of_nat (128 + c mod 64) :: byte) - 128 = c mod 64"
  unfolding unat_cont_byte by simp

lemma utf8_decode_lead2:
  assumes "unat b0 = 192 + q" "q < 32" "is_cont b1"
  shows "utf8_decode (b0 # b1 # r)
           = map_option ((#) (q * 64 + (unat b1 - 128))) (utf8_decode r)"
  using assms by simp

lemma utf8_decode_lead3:
  assumes "unat b0 = 224 + q" "q < 16" "is_cont b1" "is_cont b2"
  shows "utf8_decode (b0 # b1 # b2 # r)
           = map_option ((#) (q * 4096 + (unat b1 - 128) * 64 + (unat b2 - 128))) (utf8_decode r)"
  using assms by simp

lemma utf8_decode_lead4:
  assumes "unat b0 = 240 + q" "q < 16" "is_cont b1" "is_cont b2" "is_cont b3"
  shows "utf8_decode (b0 # b1 # b2 # b3 # r)
           = map_option ((#) (q * 262144 + (unat b1 - 128) * 4096 + (unat b2 - 128) * 64
                               + (unat b3 - 128))) (utf8_decode r)"
  using assms by simp

lemma unat_lead_byte: "q < 32 \<Longrightarrow> unat (of_nat (k + q) :: byte) = k + q" if "k \<le> 224" for k q :: nat
  using that by (intro unat_byte_of_nat) linarith

lemma split_64: "(c::nat) = c div 64 * 64 + c mod 64"
  by simp

lemma div_4096: "(c::nat) div 4096 = c div 64 div 64"
  by (simp add: div_mult2_eq[symmetric])

lemma div_262144: "(c::nat) div 262144 = c div 64 div 64 div 64"
  by (simp add: div_mult2_eq[symmetric])

lemma utf8_decode_one:
  assumes "c < 128"
  shows "utf8_decode (of_nat c # r) = map_option ((#) c) (utf8_decode r)"
proof -
  have "unat (of_nat c :: byte) = c" using assms by (intro unat_byte_of_nat) linarith
  then show ?thesis using assms by simp
qed

lemma utf8_decode_two:
  assumes "128 \<le> c" "c < 2048"
  shows "utf8_decode (of_nat (192 + c div 64) # of_nat (128 + c mod 64) # r)
           = map_option ((#) c) (utf8_decode r)"
proof -
  have q: "c div 64 < 32" using assms(2) by (intro less_mult_imp_div_less) simp
  have l: "unat (of_nat (192 + c div 64) :: byte) = 192 + c div 64"
    by (rule unat_lead_byte[OF _ q]) simp
  have v: "c div 64 * 64 + c mod 64 = c" by simp
  show ?thesis
    unfolding utf8_decode_lead2[OF l q is_cont_byte] unat_cont_minus v ..
qed

lemma utf8_decode_three:
  assumes "2048 \<le> c" "c < 65536"
  shows "utf8_decode (of_nat (224 + c div 4096) # of_nat (128 + c div 64 mod 64)
             # of_nat (128 + c mod 64) # r)
           = map_option ((#) c) (utf8_decode r)"
proof -
  have q: "c div 4096 < 16" using assms(2) by (intro less_mult_imp_div_less) simp
  then have q': "c div 4096 < 32" by simp
  have l: "unat (of_nat (224 + c div 4096) :: byte) = 224 + c div 4096"
    by (rule unat_lead_byte[OF _ q']) simp
  have "c div 64 = c div 64 div 64 * 64 + c div 64 mod 64" by simp
  then have "c = (c div 4096) * 4096 + (c div 64 mod 64) * 64 + c mod 64"
    unfolding div_4096 using split_64[of c] by linarith
  then have v: "c div 4096 * 4096 + c div 64 mod 64 * 64 + c mod 64 = c" by simp
  show ?thesis
    unfolding utf8_decode_lead3[OF l q is_cont_byte is_cont_byte] unat_cont_minus v ..
qed

lemma utf8_decode_four:
  assumes "65536 \<le> c" "c < 1114112"
  shows "utf8_decode (of_nat (240 + c div 262144) # of_nat (128 + c div 4096 mod 64)
             # of_nat (128 + c div 64 mod 64) # of_nat (128 + c mod 64) # r)
           = map_option ((#) c) (utf8_decode r)"
proof -
  have q: "c div 262144 < 5" using assms(2) by (intro less_mult_imp_div_less) simp
  have l: "unat (of_nat (240 + c div 262144) :: byte) = 240 + c div 262144"
    using q by (intro unat_byte_of_nat) linarith
  define a where "a = c div 64"
  define b where "b = a div 64"
  have 1: "c = a * 64 + c mod 64" unfolding a_def by simp
  have 2: "a = b * 64 + a mod 64" unfolding b_def by simp
  have 3: "b = b div 64 * 64 + b mod 64" by simp
  have d1: "c div 4096 = b" unfolding b_def a_def by (rule div_4096)
  have d2: "c div 262144 = b div 64" unfolding b_def a_def by (rule div_262144)
  have "c = (b div 64) * 262144 + (b mod 64) * 4096 + (a mod 64) * 64 + c mod 64"
    using 1 2 3 by linarith
  then have v: "c div 262144 * 262144 + c div 4096 mod 64 * 4096
                  + c div 64 mod 64 * 64 + c mod 64 = c"
    unfolding d1 d2 a_def[symmetric] by simp
  have q': "c div 262144 < 16" using q by simp
  show ?thesis
    unfolding utf8_decode_lead4[OF l q' is_cont_byte is_cont_byte is_cont_byte] unat_cont_minus v ..
qed

lemma utf8_decode_char:
  assumes "utf8_char c = Inr b"
  shows "utf8_decode (b @ r) = map_option ((#) c) (utf8_decode r)"
  using assms
proof (cases rule: utf8_char_cases)
  case one
  then show ?thesis using utf8_decode_one[of c r] by (simp only: append.simps)
next
  case two
  then show ?thesis using utf8_decode_two[of c r] by (simp only: append.simps)
next
  case three
  then show ?thesis using utf8_decode_three[of c r] by (simp only: append.simps)
next
  case four
  then show ?thesis using utf8_decode_four[of c r] by (simp only: append.simps)
qed

lemma utf8_decode_encode: "utf8_encode s = Inr bs \<Longrightarrow> utf8_decode bs = Some s"
proof (induction s arbitrary: bs)
  case Nil
  then show ?case by simp
next
  case (Cons c cs)
  from Cons.prems obtain b bs' where b: "utf8_char c = Inr b"
    and bs': "utf8_encode cs = Inr bs'" and bs: "bs = b @ bs'"
    unfolding utf8_encode_Cons_Inr by blast
  show ?case unfolding bs utf8_decode_char[OF b] Cons.IH[OF bs'] by simp
qed

section \<open>Reading back what was built\<close>

lemma name_field_read:
  assumes nf: "name_field fname = Inr nf"
    and enc: "utf8_encode fname = Inr enc" and short: "length enc \<le> 14" and nul: "0 \<notin> set enc"
  shows "utf8_decode (takeWhile (\<lambda>b. b \<noteq> 0) nf) = Some fname"
proof -
  from nf enc short have n: "nf = enc @ 0 # replicate (14 - length enc) 0"
    unfolding name_field_Inr by simp
  have "x \<noteq> 0" if "x \<in> set enc" for x using that nul by auto
  then have "takeWhile (\<lambda>b. b \<noteq> 0) nf = enc @ takeWhile (\<lambda>b. b \<noteq> 0) (0 # replicate (14 - length enc) 0)"
    unfolding n by (rule takeWhile_append2)
  then have "takeWhile (\<lambda>b. b \<noteq> 0) nf = enc" by simp
  then show ?thesis using utf8_decode_encode[OF enc] by simp
qed

lemma index_record_sizes:
  assumes "index_record (fname, sz, sz, k) = Inr r"
  shows "int (u32_at (r @ rest) 24) = sz" and "int (u32_at (r @ rest) 28) = sz"
proof -
  from assms obtain nf unpacked stored where nf: "name_field fname = Inr nf"
    and u: "struct_pack_I sz = Inr unpacked" and s: "struct_pack_I sz = Inr stored"
    and r: "r = nf @ replicate 9 0 @ unpacked @ stored"
    unfolding index_record_Inr by blast
  have l: "length nf = 15" "length unpacked = 4" "length stored = 4"
    using nf u s by (simp_all add: length_name_field length_struct_pack_I)
  have "take 4 (drop 24 (r @ rest)) = unpacked" unfolding r using l by simp
  then show "int (u32_at (r @ rest) 24) = sz" unfolding u32_at_def using le32_pack[OF u] by simp
  have "take 4 (drop 28 (r @ rest)) = stored" unfolding r using l by simp
  then show "int (u32_at (r @ rest) 28) = sz" unfolding u32_at_def using le32_pack[OF s] by simp
qed

lemma nat_padded_size: "nat (padded_size data) = length (padded data)"
  using length_padded[of data] by simp

lemma read_entries_build:
  assumes "\<forall>e \<in> set es. \<exists>enc. utf8_encode (fst e) = Inr enc \<and> length enc \<le> 14 \<and> 0 \<notin> set enc"
    and "index_loop (entries_at k es) [] = Inr t"
    and "drop off archive = data_region es @ tail"
    and "off \<le> length archive"
  shows "read_entries archive (length es) (t @ rest) off = Some es"
  using assms
proof (induction es arbitrary: k t off)
  case Nil
  show ?case by simp
next
  case (Cons e es)
  obtain fname data where e: "e = (fname, data)" by (cases e)
  from Cons.prems(1) obtain enc where enc: "utf8_encode fname = Inr enc"
    and short: "length enc \<le> 14" and nul: "0 \<notin> set enc"
    unfolding e by auto
  from Cons.prems(2) obtain r t' where r: "index_record (fname, int (length data), int (length data), k) = Inr r"
    and t': "index_loop (entries_at (k + padded_size data) es) [] = Inr t'" and t: "t = r @ t'"
    unfolding e entries_at.simps index_loop_Cons by (auto split: sum.splits)
  have lr: "length r = 32" using r by (rule length_index_record)
  from r obtain nf unpacked stored where nf: "name_field fname = Inr nf"
    and rr: "r = nf @ replicate 9 0 @ unpacked @ stored"
    unfolding index_record_Inr by blast
  have "length nf = 15" using nf by (rule length_name_field)
  then have rn: "take 15 (r @ t' @ rest) = nf" unfolding rr by simp
  have name: "utf8_decode (takeWhile (\<lambda>b. b \<noteq> 0) (take 15 (r @ t' @ rest))) = Some fname"
    unfolding rn by (rule name_field_read[OF nf enc short nul])
  have s24: "u32_at (r @ t' @ rest) 24 = length data" and s28: "u32_at (r @ t' @ rest) 28 = length data"
    using index_record_sizes[OF r, of "t' @ rest"] by simp_all
  have d: "drop off archive = data @ replicate (nat (padded_size data - int (length data))) 0 @ data_region es @ tail"
    using Cons.prems(3) unfolding e data_region_Cons padded_def by simp
  have "length (drop off archive) \<ge> length (padded data)"
    using Cons.prems(3) unfolding e data_region_Cons by simp
  then have fits: "off + length (padded data) \<le> length archive"
    using Cons.prems(4) by simp
  have "length data \<le> length (padded data)" by (simp add: padded_def)
  with fits have fit: "\<not> length archive < off + length data" by simp
  have content: "take (length data) (drop off archive) = data" unfolding d by simp
  have next_off: "off + nat (align16 (int (length data))) = off + length (padded data)"
    using nat_padded_size[of data] by (simp add: padded_size_def)
  have "drop (off + length (padded data)) archive = drop (length (padded data)) (drop off archive)"
    by (simp add: add.commute)
  also have "\<dots> = data_region es @ tail"
    using Cons.prems(3) unfolding e data_region_Cons by simp
  finally have rest_data: "drop (off + length (padded data)) archive = data_region es @ tail" .
  have valid: "\<forall>e \<in> set es. \<exists>enc. utf8_encode (fst e) = Inr enc \<and> length enc \<le> 14 \<and> 0 \<notin> set enc"
    using Cons.prems(1) by simp
  have ih: "read_entries archive (length es) (t' @ rest) (off + length (padded data)) = Some es"
    by (rule Cons.IH[OF valid t' rest_data fits])
  have d32: "drop 32 (r @ t' @ rest) = t' @ rest" using lr by simp
  have l32: "\<not> length (r @ t' @ rest) < 32" using lr by simp
  show ?case
    unfolding e t append_assoc length_Cons read_entries.simps Let_def
      s24 s28 name d32 next_off ih content
    using l32 fit by simp
qed

lemma u32_at_signature: "u32_at ([0x46, 0x41, 0x32, 0, 0, 0, 0, 0] @ rest) 0 = 0x00324146"
  by (simp add: u32_at_def le32_def)

lemma u32_at_flags: "u32_at ([0x46, 0x41, 0x32, 0, 0, 0, 0, 0] @ rest) 4 = 0"
  by (simp add: u32_at_def le32_def)

lemma parse_build:
  assumes b: "build entries = Inr archive"
    and v: "\<forall>e \<in> set entries. \<exists>enc. utf8_encode (fst e) = Inr enc \<and> length enc \<le> 14 \<and> 0 \<notin> set enc"
  shows "parse archive = Some entries"
proof -
  from b obtain header index_table where
    h: "build_header (data_end 16 entries) (int (length entries)) = Inr header"
    and i: "index_loop (entries_at 16 entries) [] = Inr index_table"
    and a: "archive = header @ data_region entries @ index_table"
    unfolding build_Inr by blast
  from h obtain ob cnt where hb: "header = [0x46, 0x41, 0x32, 0, 0, 0, 0, 0] @ ob @ cnt"
    unfolding build_header_Inr by blast
  have lh: "length header = 16" using h by (rule length_build_header)
  have sig: "u32_at archive 0 = 0x00324146" unfolding a hb append_assoc by (rule u32_at_signature)
  have flags: "u32_at archive 4 = 0" unfolding a hb append_assoc by (rule u32_at_flags)
  have off: "int (u32_at archive 8) = data_end 16 entries" using b by (rule u32_at_build_8)
  have cnt: "u32_at archive 12 = length entries" using u32_at_build_12[OF b] by simp
  have len: "int (length archive) = data_end 16 entries + 32 * int (length entries)"
    using b by (rule length_build)
  have ld: "int (length (header @ data_region entries)) = data_end 16 entries"
    using lh length_data_region[of entries] data_end_shift[of 16 entries] by simp
  then have o: "u32_at archive 8 = length (header @ data_region entries)" using off by linarith
  have long: "\<not> length archive < 16" unfolding a using lh by simp
  have fits: "\<not> length archive < u32_at archive 8 + 32 * u32_at archive 12"
    using len off cnt by linarith
  have idx: "drop (u32_at archive 8) archive = index_table @ []"
    unfolding o unfolding a by simp
  have dat: "drop 16 archive = data_region entries @ index_table"
    unfolding a using lh by simp
  have le: "16 \<le> length archive" using long by simp
  have "read_entries archive (length entries) (index_table @ []) 16 = Some entries"
    by (rule read_entries_build[OF v i dat le])
  then show ?thesis
    unfolding parse_def Let_def cnt idx using sig flags long fits cnt by simp
qed

section \<open>Facts about the examples\<close>

lemma build_example: "build example_entries = Inr example_archive"
  by code_simp

lemma example_data_sum:
  "sum_list (map (\<lambda>e. align16 (int (length (snd e)))) example_entries) = 48"
  by code_simp

lemma length_example_archive: "length example_archive = 128"
  by code_simp

lemma length_example_entries: "length example_entries = 2"
  by code_simp

lemma example_offsets: "data_offsets example_entries = [16, 32]"
  by code_simp

lemma long_name_encode:
  "utf8_encode long_name =
     Inr [116, 104, 105, 115, 95, 110, 97, 109, 101, 95, 105, 115, 95, 100, 101, 102, 105, 110,
      105, 116, 101, 108, 121, 95, 116, 111, 111, 95, 108, 111, 110, 103, 46, 116, 120, 116]"
  by code_simp

lemma build_empty: "build empty_entries = Inr empty_archive"
  by code_simp

lemma pack_example: "pack_fa2 example_fs = (Inr (), Some example_archive)"
  by code_simp

lemma pack_example_fault:
  "pack_fa2 (example_fs\<lparr>write_fault := Some 16\<rparr>) =
     (Inl OSError, Some [70, 65, 50, 0, 0, 0, 0, 0, 64, 0, 0, 0, 2, 0, 0, 0])"
  by code_simp

lemma pack_example_unreadable:
  "pack_fa2 (example_fs\<lparr>read_file := (\<lambda>f. None)\<rparr>) = (Inl OSError, Some [1, 2, 3])"
  by code_simp

lemma straddling_encode:
  "utf8_encode straddling_name =
     Inr [97, 97, 97, 97, 97, 97, 97, 97, 97, 97, 97, 97, 97, 0xC3, 0xA9, 98]"
  by code_simp

lemma straddling_field:
  "name_field straddling_name =
     Inr [97, 97, 97, 97, 97, 97, 97, 97, 97, 97, 97, 97, 97, 0xC3, 0]"
  by code_simp

lemma build_long: "build long_entries = Inr long_archive"
  by code_simp

lemma align16_3: "align16 3 = 16"
  by code_simp

lemma parse_long:
  "parse long_archive
     = Some [([116, 104, 105, 115, 95, 110, 97, 109, 101, 95, 105, 115, 95, 100], [1, 2, 3])]"
  by (simp add: parse_def long_archive_def u32_at_def le32_def align16_3)

lemma example_short_names:
  "\<forall>e \<in> set example_entries. \<exists>enc. utf8_encode (fst e) = Inr enc \<and> length enc \<le> 14 \<and> 0 \<notin> set enc"
proof -
  have "utf8_encode [97, 46, 116, 120, 116] = Inr [97, 46, 116, 120, 116]"
    "utf8_encode [98, 46, 100, 97, 116] = Inr [98, 46, 100, 97, 116]" by code_simp+
  then show ?thesis by (simp add: example_entries_def)
qed

lemma pack_example_print_fault:
  "pack_fa2 (example_fs\<lparr>print_fault := Some ValueError\<rparr>) = (Inl ValueError, Some example_archive)"
  by code_simp

lemma directory_archive_example:
  "directory_archive (example_fs\<lparr>print_fault := Some ValueError\<rparr>) = Some example_archive"
  by code_simp

lemma example_contents:
  "snd (example_entries ! 0) = [0x68, 0x69]" "snd (example_entries ! Suc 0) = replicate 20 0"
  by (simp_all add: example_entries_def)

lemma align16_2: "align16 2 = 16"
  by code_simp

lemma align16_20: "align16 20 = 32"
  by code_simp

lemma u32_at_long_8: "u32_at long_archive 8 = 32"
  by (simp add: u32_at_def le32_def long_archive_def)

lemma u32_at_example_8: "u32_at example_archive 8 = 64"
  by (simp add: u32_at_def le32_def example_archive_def)

lemma b_dat_encode: "utf8_encode [98, 46, 100, 97, 116] = Inr [98, 46, 100, 97, 116]"
  by code_simp

lemma replicate_9: "replicate 9 (0 :: byte) = [0, 0, 0, 0, 0, 0, 0, 0, 0]"
  by code_simp







lemma build_straddling: "build [(straddling_name, [])] = Inr straddling_archive"
  by code_simp

lemma u32_at_straddling_8: "u32_at straddling_archive 8 = 16"
  by (simp add: u32_at_def le32_def straddling_archive_def)

section \<open>The header\<close>

text \<open>
  Claim C2. In every archive that is built, the little-endian 32-bit field at byte
  offset 8 (\<open>indexOffset\<close>) is 16 plus the sum of \<open>align16\<close> of the content lengths
  of all entries, and the field at byte offset 12 (\<open>entryCount\<close>) is the number of
  entries.
\<close>

theorem header_fields:
  assumes "build entries = Inr archive"
  shows "int (u32_at archive 8) = 16 + sum_list (map (\<lambda>e. align16 (int (length (snd e)))) entries)
       \<and> int (u32_at archive 12) = int (length entries)"
  using u32_at_build_8 [OF assms] u32_at_build_12 [OF assms]
  by (simp only: data_end_sum)

theorem header_fields_witness:
  "build example_entries = Inr example_archive
   \<and> int (u32_at example_archive 8) = 64 \<and> int (u32_at example_archive 12) = 2"
  using header_fields [OF build_example] build_example
  by (simp only: example_data_sum length_example_entries) simp

section \<open>The length of the archive\<close>

text \<open>
  Claim C3. Every archive that is built has 16 bytes of header, \<open>align16\<close> of the
  content length for each entry, and 32 bytes of index for each entry; the archive
  of no entries is the 16-byte header alone, with \<open>indexOffset = 16\<close> and
  \<open>entryCount = 0\<close>.
\<close>

theorem archive_length:
  "(build entries = Inr archive \<longrightarrow>
      int (length archive) =
        16 + sum_list (map (\<lambda>e. align16 (int (length (snd e)))) entries)
           + 32 * int (length entries))
   \<and> build [] = Inr [0x46, 0x41, 0x32, 0, 0, 0, 0, 0, 16, 0, 0, 0, 0, 0, 0, 0]"
  using length_build[of entries archive] build_Nil by (simp only: data_end_sum) simp

theorem archive_length_witness:
  "build example_entries = Inr example_archive
   \<and> int (length example_archive) = 16 + 48 + 32 * 2"
  using archive_length [of example_entries example_archive] build_example
  by (simp only: example_data_sum length_example_entries) simp

section \<open>Data offsets\<close>

text \<open>
  Claim C4. The first entry's data offset is 16; the offset of each later entry is the
  offset of the entry before it plus \<open>align16\<close> of that entry's content length; every
  offset is a multiple of 16. The data lie at these offsets: in \<open>file_data\<close>, which
  follows the 16 bytes of the header, and in every archive that is built, the bytes
  from the offset of an entry on are its content and then zero bytes up to \<open>align16\<close>
  of the content length, so the gap between the data of consecutive entries is that
  padded length. \<open>align16 n\<close> is \<open>(n + 15) & ~15\<close>, the least multiple of 16 from
  \<open>n\<close> on, and leaves multiples of 16, 0 among them, unchanged.
\<close>

theorem data_offsets_aligned:
  "length (data_offsets entries) = length entries
   \<and> (entries \<noteq> [] \<longrightarrow> data_offsets entries ! 0 = 16)
   \<and> (\<forall>i. Suc i < length entries \<longrightarrow>
         data_offsets entries ! Suc i
           = data_offsets entries ! i + align16 (int (length (snd (entries ! i)))))
   \<and> (\<forall>i < length entries. 16 dvd data_offsets entries ! i)
   \<and> (\<forall>i < length entries.
         take (nat (align16 (int (length (snd (entries ! i))))))
           (drop (nat (data_offsets entries ! i - 16)) (fst (snd (data_loop entries ([], [], 0x10)))))
           = snd (entries ! i)
             @ replicate (nat (align16 (int (length (snd (entries ! i))))
                               - int (length (snd (entries ! i))))) 0)
   \<and> (\<forall>archive. build entries = Inr archive \<longrightarrow>
         (\<forall>i < length entries.
            take (nat (align16 (int (length (snd (entries ! i))))))
              (drop (nat (data_offsets entries ! i)) archive)
              = snd (entries ! i)
                @ replicate (nat (align16 (int (length (snd (entries ! i))))
                                  - int (length (snd (entries ! i))))) 0))
   \<and> (\<forall>n. align16 n = (n + 15) AND NOT 15
          \<and> 16 dvd align16 n \<and> n \<le> align16 n \<and> align16 n < n + 16
          \<and> (16 dvd n \<longrightarrow> align16 n = n))
   \<and> align16 0 = 0"
proof -
  have d: "data_offsets entries = offsets_at 16 entries"
    by (simp add: data_offsets_eq offsets_at_def)
  have 1: "length (data_offsets entries) = length entries"
    unfolding d by (rule length_offsets_at)
  have 2: "entries \<noteq> [] \<longrightarrow> data_offsets entries ! 0 = 16"
    unfolding d by (cases entries) (simp_all add: offsets_at_Cons)
  have 3: "\<forall>i. Suc i < length entries \<longrightarrow>
         data_offsets entries ! Suc i
           = data_offsets entries ! i + align16 (int (length (snd (entries ! i))))"
    unfolding d using offsets_at_step[of _ entries 16] by (simp add: padded_size_def)
  have 4: "\<forall>i < length entries. 16 dvd data_offsets entries ! i"
    unfolding d using offsets_at_dvd[of 16 _ entries] by simp
  have 5: "\<forall>i < length entries.
         take (nat (align16 (int (length (snd (entries ! i))))))
           (drop (nat (data_offsets entries ! i - 16)) (fst (snd (data_loop entries ([], [], 0x10)))))
           = snd (entries ! i)
             @ replicate (nat (align16 (int (length (snd (entries ! i))))
                               - int (length (snd (entries ! i))))) 0"
    using file_data_at[of _ entries] by (simp add: padded_def padded_size_def)
  have 6: "\<forall>archive. build entries = Inr archive \<longrightarrow>
         (\<forall>i < length entries.
            take (nat (align16 (int (length (snd (entries ! i))))))
              (drop (nat (data_offsets entries ! i)) archive)
              = snd (entries ! i)
                @ replicate (nat (align16 (int (length (snd (entries ! i))))
                                  - int (length (snd (entries ! i))))) 0)"
    using build_data_at[of entries] by (simp add: padded_def padded_size_def)
  have 7: "\<forall>n. align16 n = (n + 15) AND NOT 15
          \<and> 16 dvd align16 n \<and> n \<le> align16 n \<and> align16 n < n + 16
          \<and> (16 dvd n \<longrightarrow> align16 n = n)"
    using align16_dvd align16_ge align16_less align16_fixed by (simp add: align16_def)
  show ?thesis using 1 2 3 4 5 6 7 align16_0 by blast
qed

theorem data_offsets_aligned_witness:
  "example_entries \<noteq> [] \<and> Suc 0 < length example_entries \<and> data_offsets example_entries ! 0 = 16
   \<and> data_offsets example_entries ! Suc 0 = 16 + align16 2
   \<and> 16 dvd data_offsets example_entries ! Suc 0
   \<and> build example_entries = Inr example_archive
   \<and> take 16 (drop 16 example_archive) = [0x68, 0x69] @ replicate 14 0
   \<and> take 32 (drop 32 example_archive) = replicate 20 0 @ replicate 12 0
   \<and> take 32 (drop 16 (fst (snd (data_loop example_entries ([], [], 0x10)))))
       = replicate 20 0 @ replicate 12 0
   \<and> (16 dvd (32::int) \<and> align16 32 = 32)"
proof -
  have n: "example_entries \<noteq> []" and l: "Suc 0 < length example_entries"
    and l0: "0 < length example_entries"
    and s: "int (length (snd (example_entries ! 0))) = 2"
    by (simp_all add: example_entries_def)
  have dv: "16 dvd (32::int)" by simp
  note t = data_offsets_aligned [of example_entries]
  have a: "data_offsets example_entries ! Suc 0 = 16 + align16 2"
    using t n l s by (auto simp only: example_offsets)
  have b: "16 dvd data_offsets example_entries ! Suc 0" using t l by blast
  have c0: "take 16 (drop 16 example_archive) = [0x68, 0x69] @ replicate 14 0"
  proof -
    from t build_example l0 have
      "take (nat (align16 (int (length (snd (example_entries ! 0))))))
         (drop (nat (data_offsets example_entries ! 0)) example_archive)
         = snd (example_entries ! 0)
           @ replicate (nat (align16 (int (length (snd (example_entries ! 0))))
                             - int (length (snd (example_entries ! 0))))) 0" by blast
    then show ?thesis unfolding example_offsets example_contents by (simp add: align16_2)
  qed
  have c1: "take 32 (drop 32 example_archive) = replicate 20 0 @ replicate 12 0"
  proof -
    from t build_example l have
      "take (nat (align16 (int (length (snd (example_entries ! Suc 0))))))
         (drop (nat (data_offsets example_entries ! Suc 0)) example_archive)
         = snd (example_entries ! Suc 0)
           @ replicate (nat (align16 (int (length (snd (example_entries ! Suc 0))))
                             - int (length (snd (example_entries ! Suc 0))))) 0" by blast
    then show ?thesis unfolding example_offsets example_contents by (simp add: align16_20)
  qed
  have c2: "take 32 (drop 16 (fst (snd (data_loop example_entries ([], [], 0x10)))))
       = replicate 20 0 @ replicate 12 0"
  proof -
    from t l have
      "take (nat (align16 (int (length (snd (example_entries ! Suc 0))))))
         (drop (nat (data_offsets example_entries ! Suc 0 - 16))
            (fst (snd (data_loop example_entries ([], [], 0x10)))))
         = snd (example_entries ! Suc 0)
           @ replicate (nat (align16 (int (length (snd (example_entries ! Suc 0))))
                             - int (length (snd (example_entries ! Suc 0))))) 0" by blast
    then show ?thesis unfolding example_offsets example_contents by (simp add: align16_20)
  qed
  have e: "align16 32 = 32" using t dv by blast
  show ?thesis
    using n l a b build_example c0 c1 c2 dv e t
    by (simp only: example_offsets nth_Cons_0 simp_thms)
qed

section \<open>The name field\<close>

text \<open>
  Claim C5. In every archive that is built, the 32 bytes at \<open>indexOffset + 32 * i\<close>
  are the index record that the second loop makes of entry \<open>i\<close>. Its first 15 bytes
  are the name field, which comes from the UTF-8 encoding of the name: an encoding of
  15 bytes or more gives its first 14 bytes and a null byte; a shorter one gives the
  encoding, a null byte and zero bytes up to 15 bytes. The field always has 15 bytes
  and the record 32: nine zero bytes follow the field, then the content length twice,
  at the offsets 24 and 28.
\<close>

theorem name_field_layout:
  assumes "build entries = Inr archive" and "i < length entries"
    and "utf8_encode (fst (entries ! i)) = Inr enc"
    and "record = take 32 (drop (u32_at archive 8 + 32 * i) archive)"
  shows "index_record (fst (data_loop entries ([], [], 0x10)) ! i) = Inr record
       \<and> name_field (fst (entries ! i)) = Inr (take 15 record)
       \<and> take 15 record =
           (if 15 \<le> length enc then take 14 enc @ [0]
            else enc @ [0] @ replicate (14 - length enc) 0)
       \<and> length (take 15 record) = 15 \<and> length record = 32
       \<and> take 9 (drop 15 record) = replicate 9 0
       \<and> u32_at record 24 = length (snd (entries ! i))
       \<and> u32_at record 28 = length (snd (entries ! i))"
proof -
  have r: "index_record (fst (data_loop entries ([], [], 16)) ! i) = Inr record"
    unfolding assms(4) using assms(1,2) by (rule build_record_at)
  then have r': "index_record (fst (entries ! i), int (length (snd (entries ! i))),
        int (length (snd (entries ! i))), data_offsets entries ! i) = Inr record"
    unfolding file_entries_nth[OF assms(2)] .
  note f = record_fields[OF r']
  from f have nf: "name_field (fst (entries ! i)) = Inr (take 15 record)" by blast
  then have t: "take 15 record =
           (if 15 \<le> length enc then take 14 enc @ [0]
            else enc @ [0] @ replicate (14 - length enc) 0)"
    unfolding name_field_Inr using assms(3) by auto
  have l: "length (take 15 record) = 15" using nf by (rule length_name_field)
  from f have s: "u32_at record 24 = length (snd (entries ! i))"
    "u32_at record 28 = length (snd (entries ! i))" by simp_all
  show ?thesis using r nf t l f s by simp
qed

theorem name_field_layout_witness:
  "build long_entries = Inr long_archive \<and> 0 < length long_entries
   \<and> utf8_encode (fst (long_entries ! 0)) =
       Inr [116, 104, 105, 115, 95, 110, 97, 109, 101, 95, 105, 115, 95, 100, 101, 102, 105, 110,
            105, 116, 101, 108, 121, 95, 116, 111, 111, 95, 108, 111, 110, 103, 46, 116, 120, 116]
   \<and> take 15 (take 32 (drop 32 long_archive)) =
       [116, 104, 105, 115, 95, 110, 97, 109, 101, 95, 105, 115, 95, 100, 0]
   \<and> u32_at (take 32 (drop 32 long_archive)) 24 = 3
   \<and> build example_entries = Inr example_archive \<and> Suc 0 < length example_entries
   \<and> utf8_encode (fst (example_entries ! Suc 0)) = Inr [98, 46, 100, 97, 116]
   \<and> take 15 (take 32 (drop 96 example_archive)) =
       [98, 46, 100, 97, 116, 0, 0, 0, 0, 0, 0, 0, 0, 0, 0]"
proof -
  have l: "0 < length long_entries" by (simp add: long_entries_def)
  have e: "utf8_encode (fst (long_entries ! 0)) =
       Inr [116, 104, 105, 115, 95, 110, 97, 109, 101, 95, 105, 115, 95, 100, 101, 102, 105, 110,
            105, 116, 101, 108, 121, 95, 116, 111, 111, 95, 108, 111, 110, 103, 46, 116, 120, 116]"
    using long_name_encode by (simp add: long_entries_def)
  have r: "take 32 (drop 32 long_archive) = take 32 (drop (u32_at long_archive 8 + 32 * 0) long_archive)"
    by (simp only: u32_at_long_8) simp
  have s: "snd (long_entries ! 0) = [1, 2, 3]" by (simp add: long_entries_def)
  have l': "Suc 0 < length example_entries" by (simp add: example_entries_def)
  have e': "utf8_encode (fst (example_entries ! Suc 0)) = Inr [98, 46, 100, 97, 116]"
    using b_dat_encode by (simp add: example_entries_def)
  have r': "take 32 (drop 96 example_archive)
      = take 32 (drop (u32_at example_archive 8 + 32 * Suc 0) example_archive)"
    by (simp only: u32_at_example_8) simp
  from name_field_layout [OF build_long l e r] name_field_layout [OF build_example l' e' r']
    build_long l e build_example l' e' s
  show ?thesis by (simp add: replicate_9)
qed

section \<open>Entries with empty content\<close>

text \<open>
  Claim C9. An entry with empty content adds no data and no padding and leaves the data
  offset where it was, so the next entry has the same offset; when every content is
  empty every data offset is 16 and \<open>indexOffset\<close> is 16, however many entries there are.
\<close>

theorem empty_content:
  "add_file fname [] (file_entries, file_data, data_offset)
     = (file_entries @ [(fname, 0, 0, data_offset)], file_data, data_offset)
   \<and> ((\<forall>e \<in> set entries. snd e = []) \<longrightarrow>
        set (data_offsets entries) \<subseteq> {16}
        \<and> (\<forall>archive. build entries = Inr archive \<longrightarrow> u32_at archive 8 = 16))"
proof -
  have 1: "add_file fname [] (file_entries, file_data, data_offset)
     = (file_entries @ [(fname, 0, 0, data_offset)], file_data, data_offset)"
    by (simp add: add_file_def align16_0)
  have e: "(\<forall>e \<in> set entries. snd e = []) \<Longrightarrow> entries_at off entries = map (\<lambda>e. (fst e, 0, 0, off)) entries" for off
    by (induction entries) (auto simp: padded_size_def align16_0)
  have s: "(\<forall>e \<in> set entries. snd e = []) \<Longrightarrow> data_end off entries = off" for off
    by (induction entries) (auto simp: data_end_def padded_size_def align16_0)
  {
    assume a: "\<forall>e \<in> set entries. snd e = []"
    have "set (data_offsets entries) \<subseteq> {16}"
      unfolding data_offsets_def data_loop_eq using e[OF a, of 16] by auto
    moreover have "u32_at archive 8 = 16" if "build entries = Inr archive" for archive
      using u32_at_build_8[OF that] s[OF a, of 16] by simp
    ultimately have "set (data_offsets entries) \<subseteq> {16}
        \<and> (\<forall>archive. build entries = Inr archive \<longrightarrow> u32_at archive 8 = 16)" by blast
  }
  with 1 show ?thesis by blast
qed

theorem empty_content_witness:
  "map snd empty_entries = [[], []]
   \<and> set (data_offsets empty_entries) \<subseteq> {16}
   \<and> build empty_entries = Inr empty_archive \<and> u32_at empty_archive 8 = 16"
proof -
  have m: "map snd empty_entries = [[], []]" by (simp add: empty_entries_def)
  then have a: "\<forall>e \<in> set empty_entries. snd e = []" by (simp add: empty_entries_def)
  show ?thesis using empty_content [of "[]" "[]" "[]" 16 empty_entries] a m build_empty by blast
qed

section \<open>Entries that share a name\<close>




section \<open>The output file of a failed run\<close>

text \<open>
  Claim C7 says that a failing run, whatever the failure, leaves the output file
  untouched or complete. The output is opened with \<open>"wb"\<close> and written in place:
  when the header is written and the next write raises, the 16 bytes of the header are
  all that is left where the older content \<open>[1, 2, 3]\<close> was, of an archive of 128
  bytes.
\<close>

theorem truncated_output_counterexample:
  "pack_fa2 (example_fs\<lparr>write_fault := Some 16\<rparr>) =
     (Inl OSError, Some [70, 65, 50, 0, 0, 0, 0, 0, 64, 0, 0, 0, 2, 0, 0, 0])
   \<and> output_file (example_fs\<lparr>write_fault := Some 16\<rparr>) = Some [1, 2, 3]
   \<and> pack_fa2 example_fs = (Inr (), Some example_archive)
   \<and> length example_archive = 128"
  using pack_example_fault pack_example length_example_archive
  by (simp add: example_fs_def)

text \<open>
  Claim C7, amended. A run that fails without a write fault (listing the directory,
  reading a file, encoding a name, packing a number or the final \<open>print\<close> fails), or
  that cannot open the output, leaves the output file either as it was or holding the
  complete archive of the directory; it holds the archive only when the \<open>print\<close> that
  follows the writes is what failed. A failure of a write is not covered.
\<close>

theorem failed_build_destination:
  assumes "fst (pack_fa2 fs) = Inl e" and "write_fault fs = None \<or> open_fails fs"
  shows "(snd (pack_fa2 fs) = output_file fs
          \<or> (\<exists>archive. directory_archive fs = Some archive \<and> snd (pack_fa2 fs) = Some archive))
       \<and> (print_fault fs = None \<longrightarrow> snd (pack_fa2 fs) = output_file fs)"
proof (cases "listdir fs")
  case None
  then show ?thesis by (simp add: pack_fa2_def)
next
  case (Some names)
  show ?thesis
  proof (cases "read_loop (read_file fs) (sort (filter (isfile fs) names)) ([], [], 16)")
    case (Inl err)
    then show ?thesis using Some by (simp add: pack_fa2_def)
  next
    case (Inr st)
    show ?thesis
    proof (cases "assemble st")
      case (Inl err)
      then show ?thesis using Some Inr by (simp add: pack_fa2_def)
    next
      case (Inr archive)
      have d: "directory_archive fs = Some archive"
        using Some \<open>read_loop (read_file fs) (sort (filter (isfile fs) names)) ([], [], 16) = Inr st\<close> Inr
        by (rule directory_archive_eq)
      show ?thesis
        using assms Some \<open>read_loop (read_file fs) (sort (filter (isfile fs) names)) ([], [], 16) = Inr st\<close> Inr d
        by (auto simp: pack_fa2_def write_archive_def print_message_def split: option.splits if_splits)
    qed
  qed
qed

theorem failed_build_destination_witness:
  "fst (pack_fa2 (example_fs\<lparr>read_file := (\<lambda>f. None)\<rparr>)) = Inl OSError
   \<and> write_fault (example_fs\<lparr>read_file := (\<lambda>f. None)\<rparr>) = None
   \<and> snd (pack_fa2 (example_fs\<lparr>read_file := (\<lambda>f. None)\<rparr>)) = Some [1, 2, 3]
   \<and> output_file (example_fs\<lparr>read_file := (\<lambda>f. None)\<rparr>) = Some [1, 2, 3]
   \<and> fst (pack_fa2 (example_fs\<lparr>print_fault := Some ValueError\<rparr>)) = Inl ValueError
   \<and> write_fault (example_fs\<lparr>print_fault := Some ValueError\<rparr>) = None
   \<and> directory_archive (example_fs\<lparr>print_fault := Some ValueError\<rparr>) = Some example_archive
   \<and> snd (pack_fa2 (example_fs\<lparr>print_fault := Some ValueError\<rparr>)) = Some example_archive"
proof -
  have f: "fst (pack_fa2 (example_fs\<lparr>read_file := (\<lambda>f. None)\<rparr>)) = Inl OSError"
    by (simp add: pack_example_unreadable)
  have w: "write_fault (example_fs\<lparr>read_file := (\<lambda>f. None)\<rparr>) = None"
    by (simp add: example_fs_def)
  have p: "print_fault (example_fs\<lparr>read_file := (\<lambda>f. None)\<rparr>) = None"
    by (simp add: example_fs_def)
  have o: "output_file (example_fs\<lparr>read_file := (\<lambda>f. None)\<rparr>) = Some [1, 2, 3]"
    by (simp add: example_fs_def)
  have f': "fst (pack_fa2 (example_fs\<lparr>print_fault := Some ValueError\<rparr>)) = Inl ValueError"
    by (simp add: pack_example_print_fault)
  have w': "write_fault (example_fs\<lparr>print_fault := Some ValueError\<rparr>) = None"
    by (simp add: example_fs_def)
  have o': "output_file (example_fs\<lparr>print_fault := Some ValueError\<rparr>) = Some [1, 2, 3]"
    by (simp add: example_fs_def)
  from failed_build_destination [OF f disjI1 [OF w]] failed_build_destination [OF f' disjI1 [OF w']]
    f w o p f' w' o' directory_archive_example pack_example_print_fault
  show ?thesis by simp
qed

section \<open>Determinism\<close>

text \<open>
  Claim C8. The archive is determined by the entries alone: the packer is a function
  of the directory content, it gives the same result for every order in which the
  system lists the same names, and a successful run does not depend on what the
  output file held before.
\<close>

theorem listing_order_irrelevant:
  "(mset names1 = mset names2 \<longrightarrow>
      pack_fa2 (fs\<lparr>listdir := Some names1\<rparr>) = pack_fa2 (fs\<lparr>listdir := Some names2\<rparr>))
   \<and> (fst (pack_fa2 fs) = Inr () \<longrightarrow>
        pack_fa2 (fs\<lparr>output_file := previous\<rparr>) = pack_fa2 fs)"
proof -
  have 1: "pack_fa2 (fs\<lparr>listdir := Some names1\<rparr>) = pack_fa2 (fs\<lparr>listdir := Some names2\<rparr>)"
    if "mset names1 = mset names2"
    unfolding pack_fa2_listdir using sort_filter_mset[OF that, of "isfile fs"]
    by (simp only:)
  have 2: "pack_fa2 (fs\<lparr>output_file := previous\<rparr>) = pack_fa2 fs" if "fst (pack_fa2 fs) = Inr ()"
    using that unfolding pack_fa2_def write_archive_def print_message_def
    by (auto simp: Let_def split: option.splits sum.splits if_splits)
  from 1 2 show ?thesis by blast
qed

theorem listing_order_irrelevant_witness:
  "mset [[98, 46, 100, 97, 116], [97, 46, 116, 120, 116 :: nat]]
     = mset [[97, 46, 116, 120, 116], [98, 46, 100, 97, 116]]
   \<and> pack_fa2 (example_fs\<lparr>listdir := Some [[97, 46, 116, 120, 116], [98, 46, 100, 97, 116]]\<rparr>)
       = (Inr (), Some example_archive)
   \<and> fst (pack_fa2 example_fs) = Inr ()
   \<and> pack_fa2 (example_fs\<lparr>output_file := None\<rparr>) = (Inr (), Some example_archive)"
proof -
  have m: "mset [[98, 46, 100, 97, 116], [97, 46, 116, 120, 116 :: nat]]
     = mset [[97, 46, 116, 120, 116], [98, 46, 100, 97, 116]]"
    by (simp add: add_mset_commute)
  have l: "example_fs\<lparr>listdir := Some [[98, 46, 100, 97, 116], [97, 46, 116, 120, 116]]\<rparr> = example_fs"
    by (simp add: example_fs_def)
  have s: "fst (pack_fa2 example_fs) = Inr ()" by (simp add: pack_example)
  from listing_order_irrelevant [of "[[98, 46, 100, 97, 116], [97, 46, 116, 120, 116]]"
      "[[97, 46, 116, 120, 116], [98, 46, 100, 97, 116]]" example_fs None] m s l pack_example
  show ?thesis by simp
qed

section \<open>Truncation inside a character\<close>

text \<open>
  Claim C10. Truncation counts bytes, not characters: there is a name whose encoding
  has at least 15 bytes and of which the packer stores the first 14 bytes of the
  encoding and a null byte, in the name field and so in the archive, where these 14
  bytes are the UTF-8 encoding of no string at all, so of no prefix of the name.
\<close>

theorem truncation_splits_character:
  "\<exists>fname enc archive. utf8_encode fname = Inr enc \<and> 15 \<le> length enc
     \<and> name_field fname = Inr (take 14 enc @ [0])
     \<and> build [(fname, [])] = Inr archive
     \<and> take 15 (drop (u32_at archive 8) archive) = take 14 enc @ [0]
     \<and> (\<forall>s. utf8_encode s \<noteq> Inr (take 14 enc))"
proof -
  let ?e = "[97, 97, 97, 97, 97, 97, 97, 97, 97, 97, 97, 97, 97, 0xC3, 0xA9, 98] :: bytes"
  let ?p = "[97, 97, 97, 97, 97, 97, 97, 97, 97, 97, 97, 97, 97, 0xC3] :: bytes"
  have "utf8_encode s \<noteq> Inr ?p" for s
  proof
    assume "utf8_encode s = Inr ?p"
    from utf8_encode_last[OF this] show False by simp
  qed
  then have 1: "\<forall>s. utf8_encode s \<noteq> Inr (take 14 ?e)" by simp
  have 2: "15 \<le> length ?e" by simp
  have 3: "name_field straddling_name = Inr (take 14 ?e @ [0])"
    using straddling_field by simp
  have 4: "take 15 (drop (u32_at straddling_archive 8) straddling_archive) = take 14 ?e @ [0]"
    unfolding u32_at_straddling_8 by (simp add: straddling_archive_def)
  from straddling_encode 2 3 build_straddling 4 1 show ?thesis by blast
qed

section \<open>Round trip\<close>

text \<open>
  Claim C1 says that building and then parsing gives back the names, the contents and
  the order of every entry list with distinct names. A name whose encoding has 15
  bytes or more is cut to 14 bytes in the index, so the reader returns another name:
  the single entry \<open>this_name_is_definitely_too_long.txt\<close> comes back as
  \<open>this_name_is_d\<close>.
\<close>

theorem round_trip_counterexample:
  "distinct (map fst long_entries) \<and> build long_entries = Inr long_archive
   \<and> parse long_archive
       = Some [([116, 104, 105, 115, 95, 110, 97, 109, 101, 95, 105, 115, 95, 100], [1, 2, 3])]
   \<and> parse long_archive \<noteq> Some long_entries"
  using build_long parse_long by (simp add: long_entries_def long_name_def)

text \<open>
  Claim C1, amended. For every entry list whose names encode to at most 14 bytes of
  UTF-8, none of them zero, and for which the build returns an archive, parsing the
  archive gives back the same names, the same contents and the same order (whether or
  not the names are distinct).
\<close>

theorem round_trip:
  assumes "build entries = Inr archive"
    and "\<forall>e \<in> set entries.
           \<exists>enc. utf8_encode (fst e) = Inr enc \<and> length enc \<le> 14 \<and> 0 \<notin> set enc"
  shows "parse archive = Some entries"
  using assms by (rule parse_build)

theorem round_trip_witness:
  "build example_entries = Inr example_archive \<and> parse example_archive = Some example_entries"
  using round_trip [OF build_example example_short_names] build_example by simp

end
